theory Spec2Isabelle
  imports Main "HOL-Library.Multiset" "HOL-Library.Log_Nat"
begin

section \<open>Strings and the regular expressions of \<^verbatim>\<open>app.js\<close>\<close>

text \<open>
  A file or folder name is a \<^typ>\<open>string\<close>: one \<^typ>\<open>char\<close> per UTF-16 code unit, for
  names whose code units are below 256.  The character classes below are the ECMAScript
  ones restricted to that range: \<^verbatim>\<open>\d\<close> is \<^verbatim>\<open>[0-9]\<close>; \<^verbatim>\<open>\s\<close> and \<^verbatim>\<open>trim()\<close> share the
  white space set TAB, LF, VT, FF, CR, SPACE and NBSP; \<^verbatim>\<open>toLowerCase()\<close> maps A-Z and the
  Latin-1 capitals (0xC0-0xDE without the multiplication sign 0xD7) 32 places up.
\<close>

definition isDigit :: "char \<Rightarrow> bool" where
  "isDigit c = (c \<in> set ''0123456789'')"

definition isSpace :: "char \<Rightarrow> bool" where
  "isSpace c = ((of_char c :: nat) \<in> set [9, 10, 11, 12, 13, 32, 160])"

definition toLowerChar :: "char \<Rightarrow> char" where
  "toLowerChar c =
     (let n = (of_char c :: nat)
      in if (65 \<le> n \<and> n \<le> 90) \<or> (192 \<le> n \<and> n \<le> 222 \<and> n \<noteq> 215)
         then char_of (n + 32) else c)"

definition toLowerCase :: "string \<Rightarrow> string" where
  "toLowerCase s = map toLowerChar s"

definition trim :: "string \<Rightarrow> string" where
  "trim s = rev (dropWhile isSpace (rev (dropWhile isSpace s)))"

text \<open>\<^verbatim>\<open>filename.split('.').pop()\<close>: the text after the last dot, the whole name when it
  has no dot.\<close>

definition splitPop :: "string \<Rightarrow> string" where
  "splitPop s = rev (takeWhile (\<lambda>c. c \<noteq> CHR ''.'') (rev s))"

text \<open>
  \<^verbatim>\<open>/^(\d+)\./\<close> against a name: the greedy digit run must be non-empty and the next
  character a dot (a shorter run is followed by a digit, so backtracking finds nothing
  more).  The result is the capture group and the text after the dot.
\<close>

definition matchNumberDot :: "string \<Rightarrow> (string \<times> string) option" where
  "matchNumberDot s =
     (let ds = takeWhile isDigit s
      in case dropWhile isDigit s of
           [] \<Rightarrow> None
         | c # rest \<Rightarrow> if ds \<noteq> [] \<and> c = CHR ''.'' then Some (ds, rest) else None)"

text \<open>\<^verbatim>\<open>.replace(/^\d+\.\s*/, '')\<close>.\<close>

definition stripNumberPrefix :: "string \<Rightarrow> string" where
  "stripNumberPrefix s =
     (case matchNumberDot s of
        Some (ds, rest) \<Rightarrow> dropWhile isSpace rest
      | None \<Rightarrow> s)"

text \<open>
  \<^verbatim>\<open>.replace(/\.(mp4|pdf|html|txt|vtt|zip|odp)$/i, '')\<close>: the match is a suffix of the
  name, a dot and one alternative read without regard to case.  No alternative is a
  suffix of another one behind a dot, so at most one of them matches.
\<close>

definition extensions :: "string list" where
  "extensions = [''mp4'', ''pdf'', ''html'', ''txt'', ''vtt'', ''zip'', ''odp'']"

definition endsWithCI :: "string \<Rightarrow> string \<Rightarrow> bool" where
  "endsWithCI p s =
     (length p \<le> length s \<and> toLowerCase (drop (length s - length p) s) = p)"

definition stripExtension :: "string \<Rightarrow> string" where
  "stripExtension s =
     (case find (\<lambda>e. endsWithCI (CHR ''.'' # e) s) extensions of
        Some e \<Rightarrow> take (length s - (length e + 1)) s
      | None \<Rightarrow> s)"

section \<open>Filename classifier\<close>

text \<open>
  The value of \<^verbatim>\<open>getFileType\<close>.  \<open>File\<close> is the fallback string \<^verbatim>\<open>'file'\<close>.  The table
  \<^verbatim>\<open>typeMap\<close> is an object literal, so \<^verbatim>\<open>typeMap[ext]\<close> also finds the properties it
  inherits from \<^verbatim>\<open>Object.prototype\<close>; those are functions or objects, all truthy, and
  \<open>Inherited\<close> stands for such a value.
\<close>

datatype fileType =
  Video | Subtitle | Pdf | Html | Text | Archive | Presentation | File | Inherited string

definition typeMap :: "(string \<times> fileType) list" where
  "typeMap =
     [(''mp4'', Video), (''vtt'', Subtitle), (''pdf'', Pdf), (''html'', Html),
      (''txt'', Text), (''zip'', Archive), (''odp'', Presentation)]"

definition objectPrototypeKeys :: "string list" where
  "objectPrototypeKeys =
     [''constructor'', ''__defineGetter__'', ''__defineSetter__'', ''hasOwnProperty'',
      ''__lookupGetter__'', ''__lookupSetter__'', ''isPrototypeOf'',
      ''propertyIsEnumerable'', ''toString'', ''valueOf'', ''__proto__'',
      ''toLocaleString'']"

definition getFileType :: "string \<Rightarrow> fileType" where
  "getFileType filename =
     (let ext = toLowerCase (splitPop filename)
      in case map_of typeMap ext of
           Some t \<Rightarrow> t
         | None \<Rightarrow> if ext \<in> set objectPrototypeKeys then Inherited ext else File)"

definition extractLessonNumber :: "string \<Rightarrow> string" where
  "extractLessonNumber filename =
     (case matchNumberDot filename of Some (ds, rest) \<Rightarrow> ds | None \<Rightarrow> ''0'')"

definition cleanSectionName :: "string \<Rightarrow> string" where
  "cleanSectionName name = stripNumberPrefix name"

definition cleanLessonName :: "string \<Rightarrow> string" where
  "cleanLessonName filename = trim (stripExtension (stripNumberPrefix filename))"

definition generateCourseId :: "string \<Rightarrow> string" where
  "generateCourseId courseName =
     map (\<lambda>c. if c \<in> set ''abcdefghijklmnopqrstuvwxyz0123456789'' then c else CHR ''_'')
       (toLowerCase courseName)"

text \<open>
  The display name as the specification words it, written without the definitions above:
  the leading \<open>ordinal.\<close> prefix (a non-empty run of the digits 0 to 9 and a dot) and a
  trailing recognised extension (a dot and one of mp4, pdf, html, txt, vtt, zip, odp, in
  upper or lower case letters) are removed, then the white space at both ends.
\<close>

definition recognisedExtensions_spec :: "string list" where
  "recognisedExtensions_spec = [''mp4'', ''pdf'', ''html'', ''txt'', ''vtt'', ''zip'', ''odp'']"

definition whiteSpace_spec :: "char list" where
  "whiteSpace_spec = [CHR 0x09, CHR 0x0A, CHR 0x0B, CHR 0x0C, CHR 0x0D, CHR 0x20, CHR 0xA0]"

definition foldAscii_spec :: "char \<Rightarrow> char" where
  "foldAscii_spec c =
     (case map_of (zip ''ABCDEFGHIJKLMNOPQRSTUVWXYZ'' ''abcdefghijklmnopqrstuvwxyz'') c of
        Some l \<Rightarrow> l
      | None \<Rightarrow> c)"

fun digitRun_spec :: "string \<Rightarrow> string \<times> string" where
  "digitRun_spec [] = ([], [])"
| "digitRun_spec (c # cs) =
     (if c \<in> set ''0123456789'' then (c # fst (digitRun_spec cs), snd (digitRun_spec cs))
      else ([], c # cs))"

definition ordinalPrefix_spec :: "string \<Rightarrow> (string \<times> string) option" where
  "ordinalPrefix_spec name =
     (case digitRun_spec name of
        (d, r) \<Rightarrow> if d \<noteq> [] \<and> r \<noteq> [] \<and> hd r = CHR ''.'' then Some (d, tl r) else None)"

definition hasExtension_spec :: "string \<Rightarrow> string \<Rightarrow> bool" where
  "hasExtension_spec e s =
     (length e < length s \<and>
      map foldAscii_spec (drop (length s - Suc (length e)) s) = CHR ''.'' # e)"

definition withoutExtension_spec :: "string \<Rightarrow> string" where
  "withoutExtension_spec s =
     (case find (\<lambda>e. hasExtension_spec e s) recognisedExtensions_spec of
        Some e \<Rightarrow> take (length s - Suc (length e)) s
      | None \<Rightarrow> s)"

fun dropWhiteSpace_spec :: "string \<Rightarrow> string" where
  "dropWhiteSpace_spec [] = []"
| "dropWhiteSpace_spec (c # cs) = (if c \<in> set whiteSpace_spec then dropWhiteSpace_spec cs else c # cs)"

definition trim_spec :: "string \<Rightarrow> string" where
  "trim_spec s = rev (dropWhiteSpace_spec (rev (dropWhiteSpace_spec s)))"

definition displayName_spec :: "string \<Rightarrow> string" where
  "displayName_spec name =
     trim_spec (withoutExtension_spec
       (case ordinalPrefix_spec name of Some (d, r) \<Rightarrow> r | None \<Rightarrow> name))"

section \<open>Sorting\<close>

text \<open>
  \<^verbatim>\<open>Array.prototype.sort(comparefn)\<close> is a stable sort: with a consistent comparator the
  result is the one ordered arrangement in which elements that compare equal keep their
  order.  \<open>jsSort\<close> builds it by insertion; an element goes in front of the first one
  it does not compare greater than.
\<close>

fun insertSorted :: "('a \<Rightarrow> 'a \<Rightarrow> int) \<Rightarrow> 'a \<Rightarrow> 'a list \<Rightarrow> 'a list" where
  "insertSorted cmp x [] = [x]"
| "insertSorted cmp x (y # ys) =
     (if cmp x y \<le> 0 then x # y # ys else y # insertSorted cmp x ys)"

definition jsSort :: "('a \<Rightarrow> 'a \<Rightarrow> int) \<Rightarrow> 'a list \<Rightarrow> 'a list" where
  "jsSort cmp xs = foldr (insertSorted cmp) xs []"

text \<open>
  \<^verbatim>\<open>naturalSort(a, b)\<close> is \<^verbatim>\<open>a.localeCompare(b, undefined, {numeric: true, sensitivity:
  'base'})\<close>: the collator of the host, in the default locale of the host.  It is not part
  of the program, and the builder below takes the comparator as the parameter \<open>cmp\<close>.

  \<open>naturalSort\<close> is that collator for a host whose default locale keeps the root order of
  the Unicode collation data, as the English locales do, on the names the model covers:
  names of at most 254 characters, each of them a printable ASCII character or an
  accented Latin-1 letter.  At sensitivity \<^verbatim>\<open>base\<close> two names are compared by the first
  level of their collation keys alone: an accented letter counts as its base letter and
  the case of a letter does not count.  With \<^verbatim>\<open>numeric\<close> a run of digits is one number,
  compared by its value.  White space, punctuation and symbols are not ignored; they come
  first, in the order of \<open>punctuationOrder\<close>, then the numbers, then the letters.  For a
  name the model does not cover, the value of the comparator is left open.
\<close>

datatype token = Mark nat | Num nat | Letter char

definition punctuationOrder :: "char list" where
  "punctuationOrder =
     [CHR 0x20, CHR ''_'', CHR ''-'', CHR '','', CHR '';'', CHR '':'', CHR ''!'', CHR ''?'',
      CHR ''.'', CHR 0x27, CHR 0x22, CHR ''('', CHR '')'', CHR ''['', CHR '']'', CHR ''{'',
      CHR ''}'', CHR ''@'', CHR ''*'', CHR ''/'', CHR 0x5C, CHR ''&'', CHR ''#'', CHR ''%'',
      CHR 0x60, CHR ''^'', CHR ''+'', CHR ''<'', CHR ''='', CHR ''>'', CHR ''|'', CHR ''~'',
      CHR ''$'']"

definition accentedLetters :: "(char \<times> char) list" where
  "accentedLetters =
     [(CHR 0xE0, CHR ''a''), (CHR 0xE1, CHR ''a''), (CHR 0xE2, CHR ''a''), (CHR 0xE3, CHR ''a''),
      (CHR 0xE4, CHR ''a''), (CHR 0xE5, CHR ''a''), (CHR 0xE7, CHR ''c''), (CHR 0xE8, CHR ''e''),
      (CHR 0xE9, CHR ''e''), (CHR 0xEA, CHR ''e''), (CHR 0xEB, CHR ''e''), (CHR 0xEC, CHR ''i''),
      (CHR 0xED, CHR ''i''), (CHR 0xEE, CHR ''i''), (CHR 0xEF, CHR ''i''), (CHR 0xF1, CHR ''n''),
      (CHR 0xF2, CHR ''o''), (CHR 0xF3, CHR ''o''), (CHR 0xF4, CHR ''o''), (CHR 0xF5, CHR ''o''),
      (CHR 0xF6, CHR ''o''), (CHR 0xF9, CHR ''u''), (CHR 0xFA, CHR ''u''), (CHR 0xFB, CHR ''u''),
      (CHR 0xFC, CHR ''u''), (CHR 0xFD, CHR ''y''), (CHR 0xFF, CHR ''y'')]"

fun position :: "char \<Rightarrow> char list \<Rightarrow> nat option" where
  "position c [] = None"
| "position c (x # xs) = (if c = x then Some 0 else map_option Suc (position c xs))"

text \<open>The key of a character that is not a digit; \<open>None\<close> for a character the model
  does not cover.\<close>

definition charToken :: "char \<Rightarrow> token option" where
  "charToken c =
     (let l = toLowerChar c
      in if l \<in> set ''abcdefghijklmnopqrstuvwxyz'' then Some (Letter l)
         else case map_of accentedLetters l of
                Some b \<Rightarrow> Some (Letter b)
              | None \<Rightarrow> map_option Mark (position c punctuationOrder))"

fun tokens :: "nat option \<Rightarrow> string \<Rightarrow> token list option" where
  "tokens None [] = Some []"
| "tokens (Some n) [] = Some [Num n]"
| "tokens acc (c # cs) =
     (if isDigit c
      then tokens (Some (10 * (case acc of None \<Rightarrow> 0 | Some n \<Rightarrow> n) + (of_char c - 48))) cs
      else case charToken c of
             None \<Rightarrow> None
           | Some t \<Rightarrow>
               (case tokens None cs of
                  None \<Rightarrow> None
                | Some ts \<Rightarrow> Some ((case acc of None \<Rightarrow> [] | Some n \<Rightarrow> [Num n]) @ t # ts)))"

fun tokenRank :: "token \<Rightarrow> nat \<times> nat" where
  "tokenRank (Mark r) = (0, r)"
| "tokenRank (Num n) = (1, n)"
| "tokenRank (Letter c) = (2, of_char c)"

fun compareTokens :: "token list \<Rightarrow> token list \<Rightarrow> int" where
  "compareTokens [] [] = 0"
| "compareTokens [] (y # ys) = - 1"
| "compareTokens (x # xs) [] = 1"
| "compareTokens (x # xs) (y # ys) =
     (if tokenRank x = tokenRank y then compareTokens xs ys
      else if fst (tokenRank x) < fst (tokenRank y)
              \<or> (fst (tokenRank x) = fst (tokenRank y) \<and> snd (tokenRank x) < snd (tokenRank y))
           then - 1 else 1)"

definition collationKey :: "string \<Rightarrow> token list option" where
  "collationKey name = (if length name \<le> 254 then tokens None name else None)"

definition collated :: "string \<Rightarrow> bool" where
  "collated name = (collationKey name \<noteq> None)"

definition naturalSort :: "string \<Rightarrow> string \<Rightarrow> int" where
  "naturalSort a b =
     (case (collationKey a, collationKey b) of
        (Some x, Some y) \<Rightarrow> compareTokens x y
      | _ \<Rightarrow> undefined)"

text \<open>
  What the sort needs of a comparator on the elements of a list: any two of them are
  comparable, and \<open>cmp a b \<le> 0\<close> is transitive.
\<close>

definition consistentOn :: "('a \<Rightarrow> 'a \<Rightarrow> int) \<Rightarrow> 'a list \<Rightarrow> bool" where
  "consistentOn cmp xs =
     ((\<forall>a\<in>set xs. \<forall>b\<in>set xs. cmp a b \<le> 0 \<or> cmp b a \<le> 0) \<and>
      (\<forall>a\<in>set xs. \<forall>b\<in>set xs. \<forall>c\<in>set xs. cmp a b \<le> 0 \<and> cmp b c \<le> 0 \<longrightarrow> cmp a c \<le> 0))"

section \<open>Lesson grouper and course structure builder\<close>

text \<open>
  A directory handle is a name and its children, files and directories, in the order in
  which \<^verbatim>\<open>values()\<close> enumerates them.  A file handle is its name.  Reading a listing is
  taken to succeed.
\<close>

datatype entry = FileEntry string | DirectoryEntry string "entry list"

fun isDirectory :: "entry \<Rightarrow> bool" where
  "isDirectory (DirectoryEntry n cs) = True"
| "isDirectory (FileEntry n) = False"

fun entryName :: "entry \<Rightarrow> string" where
  "entryName (DirectoryEntry n cs) = n"
| "entryName (FileEntry n) = n"

fun entryValues :: "entry \<Rightarrow> entry list" where
  "entryValues (DirectoryEntry n cs) = cs"
| "entryValues (FileEntry n) = []"

text \<open>
  The objects of the course structure.  A file of a lesson is
  \<^verbatim>\<open>{handle, name, type}\<close>; the handle is the file entry, which its name stands for.
\<close>

record lessonFile =
  file_name :: string
  file_type :: fileType

record lesson =
  number :: string
  lesson_name :: string
  files :: "lessonFile list"

record courseSection =
  section_name :: string
  rawName :: string
  lessons :: "lesson list"
  hasNonVideoFiles :: bool

text \<open>
  The three errors \<^verbatim>\<open>parseCourseStructure\<close> throws, by their messages: "No sections found.
  ...", "No video files found. ..." and "Invalid course format. ...".
\<close>

datatype structureError = NoSections | NoVideos | InvalidFormat

text \<open>
  The state of the loop over the files of one section.  \<open>lessonGroups\<close> is the \<^verbatim>\<open>Map\<close>
  from lesson number to group, in insertion order; \<open>totalVideosFound\<close> is the counter
  shared by all sections.
\<close>

record scan =
  lessonGroups :: "(string \<times> lesson) list"
  nonVideoFiles :: "string list"
  totalVideosFound :: nat

definition mapHas :: "(string \<times> 'v) list \<Rightarrow> string \<Rightarrow> bool" where
  "mapHas m k = (k \<in> set (map fst m))"

definition mapSet :: "(string \<times> 'v) list \<Rightarrow> string \<Rightarrow> 'v \<Rightarrow> (string \<times> 'v) list" where
  "mapSet m k v =
     (if mapHas m k then map (\<lambda>(k', v'). if k' = k then (k', v) else (k', v')) m
      else m @ [(k, v)])"

definition pushFile :: "(string \<times> lesson) list \<Rightarrow> string \<Rightarrow> lessonFile \<Rightarrow> (string \<times> lesson) list" where
  "pushFile m k f =
     map (\<lambda>(k', g). if k' = k then (k', g\<lparr>files := files g @ [f]\<rparr>) else (k', g)) m"

definition scanFile :: "scan \<Rightarrow> string \<Rightarrow> scan" where
  "scanFile st fname =
     (let lessonNumber = extractLessonNumber fname;
          fileType = getFileType fname
      in if fileType = Video \<or> fileType = Subtitle
         then
           (let groups = (if \<not> mapHas (lessonGroups st) lessonNumber
                          then mapSet (lessonGroups st) lessonNumber
                                 \<lparr>number = lessonNumber, lesson_name = cleanLessonName fname,
                                  files = []\<rparr>
                          else lessonGroups st);
                groups' = pushFile groups lessonNumber
                            \<lparr>file_name = fname, file_type = fileType\<rparr>
            in st\<lparr>lessonGroups := groups',
                  totalVideosFound :=
                    (if fileType = Video then totalVideosFound st + 1
                     else totalVideosFound st)\<rparr>)
         else st\<lparr>nonVideoFiles := nonVideoFiles st @ [fname]\<rparr>)"

definition hasVideo :: "lesson \<Rightarrow> bool" where
  "hasVideo l = list_ex (\<lambda>f. file_type f = Video) (files l)"

text \<open>Grouping an already sorted list of file names, from a given counter value.\<close>

definition groupFiles :: "nat \<Rightarrow> string list \<Rightarrow> scan" where
  "groupFiles found lessonEntries =
     foldl scanFile \<lparr>lessonGroups = [], nonVideoFiles = [], totalVideosFound = found\<rparr>
       lessonEntries"

definition videoLessons :: "(string \<Rightarrow> string \<Rightarrow> int) \<Rightarrow> scan \<Rightarrow> lesson list" where
  "videoLessons cmp st =
     jsSort (\<lambda>a b. cmp (number a) (number b)) (filter hasVideo (map snd (lessonGroups st)))"

definition fileNames :: "entry \<Rightarrow> string list" where
  "fileNames e = map entryName (filter (\<lambda>c. \<not> isDirectory c) (entryValues e))"

text \<open>
  \<open>parseSection\<close> is the body of the loop over the sorted subdirectories, from the listing
  of the files to the two assignments to the section; it returns the section and the new
  value of the video counter.  \<open>addSection\<close> is the whole body, with the push of a section
  that has lessons.  \<open>parseCourseStructure\<close> is the function: the collection of the
  subdirectories, the first check, the sort, the loop and the two checks after it.
\<close>

definition parseSection :: "(string \<Rightarrow> string \<Rightarrow> int) \<Rightarrow> nat \<Rightarrow> entry \<Rightarrow> courseSection \<times> nat" where
  "parseSection cmp found e =
     (let lessonEntries = jsSort cmp (fileNames e);
          st = groupFiles found lessonEntries
      in (\<lparr>section_name = cleanSectionName (entryName e), rawName = entryName e,
           lessons = videoLessons cmp st, hasNonVideoFiles = (nonVideoFiles st \<noteq> [])\<rparr>,
          totalVideosFound st))"

definition addSection ::
  "(string \<Rightarrow> string \<Rightarrow> int) \<Rightarrow> courseSection list \<times> nat \<Rightarrow> entry \<Rightarrow> courseSection list \<times> nat" where
  "addSection cmp acc e =
     (let (sec, found) = parseSection cmp (snd acc) e
      in (if lessons sec \<noteq> [] then fst acc @ [sec] else fst acc, found))"

definition parseCourseStructure ::
  "(string \<Rightarrow> string \<Rightarrow> int) \<Rightarrow> entry \<Rightarrow> structureError + courseSection list" where
  "parseCourseStructure cmp dirHandle =
     (let entries = filter isDirectory (entryValues dirHandle)
      in if entries = [] then Inl NoSections
         else
           (let sorted = jsSort (\<lambda>a b. cmp (entryName a) (entryName b)) entries;
                (structure, found) = foldl (addSection cmp) ([], 0) sorted
            in if found = 0 then Inl NoVideos
               else if structure = [] then Inl InvalidFormat
               else Inr structure))"

section \<open>Progress\<close>

text \<open>
  A JavaScript number is a binary64 value.  \<open>toDouble q\<close> is the binary64 value nearest
  to the rational \<open>q\<close>, ties going to the even significand, for \<open>q\<close> in the normal range
  (no overflow, no subnormal result): with \<open>pow2 e \<le> \<bar>q\<bar> < pow2 (e + 1)\<close> the neighbours
  of \<open>q\<close> are multiples of \<open>pow2 (e - 52)\<close>.  Counts and lengths are integers below
  \<open>2 ^ 53\<close> and are binary64 values as they are; \<^verbatim>\<open>x / y\<close> and \<^verbatim>\<open>x * y\<close> are the exact
  results rounded by \<open>toDouble\<close>.  \<^verbatim>\<open>Math.round\<close> is exact: the nearest integer,
  a tie going up.
\<close>

definition pow2 :: "int \<Rightarrow> rat" where
  "pow2 e = (if 0 \<le> e then 2 ^ nat e else 1 / 2 ^ nat (- e))"

definition binaryExponent :: "rat \<Rightarrow> int" where
  "binaryExponent q =
     (if 1 \<le> q then bitlen \<lfloor>q\<rfloor> - 1 else - bitlen (\<lceil>1 / q\<rceil> - 1))"

definition roundHalfEven :: "rat \<Rightarrow> int" where
  "roundHalfEven m =
     (let f = \<lfloor>m\<rfloor>; r = m - of_int f
      in if r < 1 / 2 then f else if 1 / 2 < r then f + 1 else if even f then f else f + 1)"

definition toDouble :: "rat \<Rightarrow> rat" where
  "toDouble q =
     (if q = 0 then 0
      else (let u = pow2 (binaryExponent \<bar>q\<bar> - 52)
            in sgn q * of_int (roundHalfEven (\<bar>q\<bar> / u)) * u))"

definition mathRound :: "rat \<Rightarrow> int" where
  "mathRound x = \<lfloor>x + 1 / 2\<rfloor>"

text \<open>
  \<^verbatim>\<open>totalLessons > 0 ? Math.round((completedCount / totalLessons) * 100) : 0\<close>, the
  expression of \<^verbatim>\<open>updateProgressBar\<close> and of \<^verbatim>\<open>saveCourseProgress\<close>.
\<close>

definition percentage :: "nat \<Rightarrow> nat \<Rightarrow> int" where
  "percentage completedCount totalLessons =
     (if totalLessons > 0
      then mathRound (toDouble (toDouble (of_nat completedCount / of_nat totalLessons) * 100))
      else 0)"

definition totalLessons :: "courseSection list \<Rightarrow> nat" where
  "totalLessons courseStructure = foldl (\<lambda>sum s. sum + length (lessons s)) 0 courseStructure"

definition updateProgressBar :: "courseSection list \<Rightarrow> string set \<Rightarrow> int" where
  "updateProgressBar courseStructure completedLessons =
     percentage (card completedLessons) (totalLessons courseStructure)"

text \<open>\<open>Math.round\<close> of the exact quotient, the formula of the specification.\<close>

definition percentComplete_spec :: "nat \<Rightarrow> nat \<Rightarrow> int" where
  "percentComplete_spec completedCount totalLessonCount =
     (if totalLessonCount = 0 then 0
      else mathRound (100 * of_nat completedCount / of_nat totalLessonCount))"

section \<open>Navigation\<close>

text \<open>
  \<^verbatim>\<open>navigateLesson(direction)\<close> returns without effect (\<open>Stay\<close>), calls
  \<^verbatim>\<open>loadLesson(newSectionIndex, newLessonIndex)\<close>, or throws a \<^verbatim>\<open>TypeError\<close> when it reads
  \<^verbatim>\<open>.lessons\<close> of a section index outside the array.
\<close>

datatype navigation = Stay | LoadLesson int int | TypeError

definition sectionAt :: "courseSection list \<Rightarrow> int \<Rightarrow> courseSection option" where
  "sectionAt courseStructure i =
     (if 0 \<le> i \<and> i < int (length courseStructure) then Some (courseStructure ! nat i)
      else None)"

definition navigateLesson ::
  "courseSection list \<Rightarrow> (int \<times> int) option \<Rightarrow> int \<Rightarrow> navigation" where
  "navigateLesson courseStructure currentLesson direction =
     (case currentLesson of
        None \<Rightarrow> Stay
      | Some (sectionIndex, lessonIndex) \<Rightarrow>
          (let newLessonIndex = lessonIndex + direction
           in if newLessonIndex < 0
              then (if sectionIndex > 0
                    then (case sectionAt courseStructure (sectionIndex - 1) of
                            None \<Rightarrow> TypeError
                          | Some s \<Rightarrow>
                              LoadLesson (sectionIndex - 1) (int (length (lessons s)) - 1))
                    else Stay)
              else (case sectionAt courseStructure sectionIndex of
                      None \<Rightarrow> TypeError
                    | Some s \<Rightarrow>
                        if newLessonIndex \<ge> int (length (lessons s))
                        then (if sectionIndex < int (length courseStructure) - 1
                              then LoadLesson (sectionIndex + 1) 0
                              else Stay)
                        else LoadLesson sectionIndex newLessonIndex)))"

definition inBounds :: "courseSection list \<Rightarrow> int \<Rightarrow> int \<Rightarrow> bool" where
  "inBounds courseStructure sectionIndex lessonIndex =
     (case sectionAt courseStructure sectionIndex of
        None \<Rightarrow> False
      | Some s \<Rightarrow> 0 \<le> lessonIndex \<and> lessonIndex < int (length (lessons s)))"

section \<open>Loading a course\<close>

text \<open>
  The fields of \<^verbatim>\<open>CourseViewer\<close> that \<^verbatim>\<open>loadCourse\<close> reads or writes, the three stores
  behind it (\<^verbatim>\<open>localStorage\<close> keys \<^verbatim>\<open>course_library\<close>, \<^verbatim>\<open>course_progress_<id>\<close>,
  \<^verbatim>\<open>last_session_<id>\<close> and \<^verbatim>\<open>last_course_id\<close>, with their JSON values as the data they
  encode) and the IndexedDB handle store.  The stores hold well-formed data and accept
  every write.  Rendering is left out.  \<open>now\<close> is the reading of \<^verbatim>\<open>Date.now()\<close> during the
  attempt.  A load with no directory handle fails on reading its name, inside the
  \<^verbatim>\<open>try\<close> block.
\<close>

record libraryEntry =
  lib_name :: string
  lib_handle :: "entry option"
  addedDate :: nat
  lastAccessed :: nat

record sessionData =
  sectionIndex :: int
  lessonIndex :: int
  lessonName :: string
  timestamp :: nat

record viewer =
  directoryHandle :: "entry option"
  courseName :: string
  currentCourseId :: "string option"
  courseStructure :: "courseSection list"
  completedLessons :: "string set"
  currentLesson :: "(int \<times> int) option"
  courseLibrary :: "(string \<times> libraryEntry) list"
  storedLibrary :: "(string \<times> string \<times> nat \<times> nat) list option"
  storedProgress :: "string \<rightharpoonup> string list"
  storedSession :: "string \<rightharpoonup> sessionData"
  lastCourseId :: "string option"
  handleStore :: "string \<rightharpoonup> entry"

datatype loadOutcome = Opened | Added | ErrorModal

definition loadCourseProgress :: "string \<Rightarrow> viewer \<Rightarrow> viewer" where
  "loadCourseProgress courseId v =
     (case storedProgress v courseId of
        Some ids \<Rightarrow> v\<lparr>completedLessons := set ids\<rparr>
      | None \<Rightarrow> v\<lparr>completedLessons := {}\<rparr>)"

definition saveCourseLibrary :: "viewer \<Rightarrow> viewer" where
  "saveCourseLibrary v =
     v\<lparr>storedLibrary :=
         Some (map (\<lambda>(courseId, d). (courseId, lib_name d, addedDate d, lastAccessed d))
                 (courseLibrary v))\<rparr>"

text \<open>\<^verbatim>\<open>saveLastSession\<close> runs inside \<^verbatim>\<open>loadLesson\<close>, which \<^verbatim>\<open>showLessonContent\<close> calls
  for the first lesson of the first section once it has checked that both exist.\<close>

definition saveLastSession :: "nat \<Rightarrow> viewer \<Rightarrow> viewer" where
  "saveLastSession now v =
     (case (currentLesson v, currentCourseId v) of
        (Some (si, li), Some courseId) \<Rightarrow>
          if courseId = [] then v
          else v\<lparr>storedSession := (storedSession v)(courseId \<mapsto>
                     \<lparr>sectionIndex = si, lessonIndex = li,
                      lessonName = lesson_name (lessons (courseStructure v ! nat si) ! nat li),
                      timestamp = now\<rparr>),
                  lastCourseId := Some courseId\<rparr>
      | _ \<Rightarrow> v)"

definition showLessonContent :: "nat \<Rightarrow> viewer \<Rightarrow> viewer" where
  "showLessonContent now v =
     (if courseStructure v \<noteq> [] \<and> lessons (hd (courseStructure v)) \<noteq> []
      then saveLastSession now (v\<lparr>currentLesson := Some (0, 0)\<rparr>)
      else v)"

definition loadCourse ::
  "(string \<Rightarrow> string \<Rightarrow> int) \<Rightarrow> nat \<Rightarrow> bool \<Rightarrow> viewer \<Rightarrow> viewer \<times> loadOutcome" where
  "loadCourse cmp now shouldOpen v =
     (case directoryHandle v of
        None \<Rightarrow> (v, ErrorModal)
      | Some h \<Rightarrow>
          (let v1 = v\<lparr>courseName := entryName h,
                      currentCourseId := Some (generateCourseId (entryName h))\<rparr>
           in case parseCourseStructure cmp h of
                Inl err \<Rightarrow> (v1, ErrorModal)
              | Inr structure \<Rightarrow>
                  (let courseId = generateCourseId (entryName h);
                       v2 = loadCourseProgress courseId (v1\<lparr>courseStructure := structure\<rparr>);
                       v3 = v2\<lparr>handleStore := (handleStore v2)(courseId \<mapsto> h)\<rparr>;
                       v4 = v3\<lparr>courseLibrary :=
                                 mapSet (courseLibrary v3) courseId
                                   \<lparr>lib_name = courseName v3, lib_handle = Some h,
                                    addedDate = now, lastAccessed = now\<rparr>\<rparr>;
                       v5 = saveCourseLibrary v4
                   in if shouldOpen then (showLessonContent now v5, Opened)
                      else (v5, Added))))"

section \<open>Vocabulary of the properties\<close>

text \<open>
  The files the grouper buckets are the media files: videos and subtitles.  \<open>bucket k
  fs\<close> lists the media files of \<open>fs\<close> whose ordinal is \<open>k\<close>, in the order of \<open>fs\<close>, as the
  records the loop stores.
\<close>

definition isMedia :: "string \<Rightarrow> bool" where
  "isMedia f = (getFileType f = Video \<or> getFileType f = Subtitle)"

definition mkFile :: "string \<Rightarrow> lessonFile" where
  "mkFile f = \<lparr>file_name = f, file_type = getFileType f\<rparr>"

definition bucket :: "string \<Rightarrow> string list \<Rightarrow> lessonFile list" where
  "bucket k fs = map mkFile (filter (\<lambda>f. isMedia f \<and> extractLessonNumber f = k) fs)"

text \<open>The subdirectories of the root, the videos below them, and the section built from
  one subdirectory.\<close>

definition subdirs :: "entry \<Rightarrow> entry list" where
  "subdirs courseDir = filter isDirectory (entryValues courseDir)"

definition videoCount :: "entry \<Rightarrow> nat" where
  "videoCount e = length (filter (\<lambda>f. getFileType f = Video) (fileNames e))"

definition videoTotal :: "entry \<Rightarrow> nat" where
  "videoTotal courseDir = sum_list (map videoCount (subdirs courseDir))"

definition sectionOf :: "(string \<Rightarrow> string \<Rightarrow> int) \<Rightarrow> entry \<Rightarrow> courseSection" where
  "sectionOf cmp e = fst (parseSection cmp 0 e)"

definition retainedSections :: "(string \<Rightarrow> string \<Rightarrow> int) \<Rightarrow> entry \<Rightarrow> courseSection list" where
  "retainedSections cmp courseDir =
     filter (\<lambda>s. lessons s \<noteq> [])
       (map (sectionOf cmp) (jsSort (\<lambda>a b. cmp (entryName a) (entryName b)) (subdirs courseDir)))"

text \<open>The flag as the specification words it: some file is neither video nor subtitle,
  or some bucket was dropped.\<close>

definition droppedGroups :: "scan \<Rightarrow> lesson list" where
  "droppedGroups st = filter (\<lambda>l. \<not> hasVideo l) (map snd (lessonGroups st))"

definition hasExtraFiles_spec :: "scan \<Rightarrow> bool" where
  "hasExtraFiles_spec st = (nonVideoFiles st \<noteq> [] \<or> droppedGroups st \<noteq> [])"

text \<open>The groups of the loop after the files \<open>seen\<close>: every group is keyed by its
  number and holds the bucket of that number, and the keys are the ordinals of the media
  files seen.\<close>

definition groupsOf :: "(string \<times> lesson) list \<Rightarrow> string list \<Rightarrow> bool" where
  "groupsOf groups seen =
     ((\<forall>(k, g)\<in>set groups. number g = k \<and> files g = bucket k seen) \<and>
      fst ` set groups = extractLessonNumber ` {f \<in> set seen. isMedia f})"

text \<open>The state the constructor of \<^verbatim>\<open>CourseViewer\<close> sets up, over empty stores.\<close>

definition initialViewer :: viewer where
  "initialViewer =
     \<lparr>directoryHandle = None, courseName = [], currentCourseId = None, courseStructure = [],
      completedLessons = {}, currentLesson = None, courseLibrary = [], storedLibrary = None,
      storedProgress = Map.empty, storedSession = Map.empty, lastCourseId = None,
      handleStore = Map.empty\<rparr>"

text \<open>
  A comparator is strict on a list when it is consistent on it and no two different
  elements compare equal.  Two directory handles show the same listing when they have the
  same subdirectories, by name, each with the same files, in whatever order.
\<close>

definition strictOn :: "('a \<Rightarrow> 'a \<Rightarrow> int) \<Rightarrow> 'a list \<Rightarrow> bool" where
  "strictOn cmp xs =
     (consistentOn cmp xs \<and> (\<forall>a\<in>set xs. \<forall>b\<in>set xs. cmp a b \<le> 0 \<and> cmp b a \<le> 0 \<longrightarrow> a = b))"

definition dirView :: "entry \<Rightarrow> string \<times> string multiset" where
  "dirView e = (entryName e, mset (fileNames e))"

definition sameListing :: "entry \<Rightarrow> entry \<Rightarrow> bool" where
  "sameListing d d' = (mset (map dirView (subdirs d)) = mset (map dirView (subdirs d')))"

section \<open>Properties of the sort\<close>

lemma mset_insertSorted: "mset (insertSorted cmp x ys) = add_mset x (mset ys)"
  by (induction ys) auto

lemma mset_jsSort: "mset (jsSort cmp xs) = mset xs"
  by (induction xs) (auto simp: jsSort_def mset_insertSorted)

lemma set_jsSort: "set (jsSort cmp xs) = set xs"
  using mset_jsSort [of cmp xs] by (metis set_mset_mset)

lemma length_jsSort: "length (jsSort cmp xs) = length xs"
  using mset_jsSort [of cmp xs] by (metis size_mset)

lemma jsSort_Nil_iff: "jsSort cmp xs = [] \<longleftrightarrow> xs = []"
  using length_jsSort [of cmp xs] by auto

lemma jsSort_Cons: "jsSort cmp (x # xs) = insertSorted cmp x (jsSort cmp xs)"
  by (simp add: jsSort_def)



lemma set_insertSorted: "set (insertSorted cmp x ys) = insert x (set ys)"
  by (induction ys) auto

lemma sorted_insertSorted:
  assumes "sorted_wrt (\<lambda>a b. cmp a b \<le> 0) ys"
    and "\<And>b. b \<in> set ys \<Longrightarrow> cmp x b \<le> 0 \<or> cmp b x \<le> 0"
    and "\<And>b c. b \<in> set ys \<Longrightarrow> c \<in> set ys \<Longrightarrow> cmp x b \<le> 0 \<Longrightarrow> cmp b c \<le> 0 \<Longrightarrow> cmp x c \<le> 0"
  shows "sorted_wrt (\<lambda>a b. cmp a b \<le> 0) (insertSorted cmp x ys)"
  using assms
proof (induction ys)
  case Nil
  then show ?case by simp
next
  case (Cons y ys)
  have sy: "\<And>z. z \<in> set ys \<Longrightarrow> cmp y z \<le> 0" and ss: "sorted_wrt (\<lambda>a b. cmp a b \<le> 0) ys"
    using Cons.prems(1) by simp_all
  show ?case
  proof (cases "cmp x y \<le> 0")
    case True
    have "\<And>z. z \<in> set ys \<Longrightarrow> cmp x z \<le> 0"
    proof -
      fix z assume z: "z \<in> set ys"
      show "cmp x z \<le> 0"
        by (rule Cons.prems(3) [of y z]) (use z True sy in simp_all)
    qed
    with True Cons.prems(1) show ?thesis by simp
  next
    case False
    have yx: "cmp y x \<le> 0" using Cons.prems(2) [of y] False by simp
    have "sorted_wrt (\<lambda>a b. cmp a b \<le> 0) (insertSorted cmp x ys)"
    proof (rule Cons.IH [OF ss])
      fix b assume "b \<in> set ys"
      then show "cmp x b \<le> 0 \<or> cmp b x \<le> 0" using Cons.prems(2) [of b] by simp
    next
      fix b c assume "b \<in> set ys" "c \<in> set ys" "cmp x b \<le> 0" "cmp b c \<le> 0"
      then show "cmp x c \<le> 0" using Cons.prems(3) [of b c] by simp
    qed
    moreover have "\<forall>z\<in>set (insertSorted cmp x ys). cmp y z \<le> 0"
      using sy yx by (simp add: set_insertSorted)
    ultimately show ?thesis using False by simp
  qed
qed

lemma sorted_jsSort:
  "consistentOn cmp xs \<Longrightarrow> sorted_wrt (\<lambda>a b. cmp a b \<le> 0) (jsSort cmp xs)"
proof (induction xs)
  case Nil
  then show ?case by (simp add: jsSort_def)
next
  case (Cons x xs)
  have tot: "\<And>a b. a \<in> set (x # xs) \<Longrightarrow> b \<in> set (x # xs) \<Longrightarrow> cmp a b \<le> 0 \<or> cmp b a \<le> 0"
    and tr: "\<And>a b c. a \<in> set (x # xs) \<Longrightarrow> b \<in> set (x # xs) \<Longrightarrow> c \<in> set (x # xs)
              \<Longrightarrow> cmp a b \<le> 0 \<Longrightarrow> cmp b c \<le> 0 \<Longrightarrow> cmp a c \<le> 0"
    using Cons.prems unfolding consistentOn_def by blast+
  have c: "consistentOn cmp xs"
    unfolding consistentOn_def
  proof (intro conjI ballI impI)
    fix a b assume "a \<in> set xs" "b \<in> set xs"
    then show "cmp a b \<le> 0 \<or> cmp b a \<le> 0" using tot [of a b] by simp
  next
    fix a b c assume "a \<in> set xs" "b \<in> set xs" "c \<in> set xs" "cmp a b \<le> 0 \<and> cmp b c \<le> 0"
    then show "cmp a c \<le> 0" using tr [of a b c] by simp
  qed
  have "sorted_wrt (\<lambda>a b. cmp a b \<le> 0) (insertSorted cmp x (jsSort cmp xs))"
  proof (rule sorted_insertSorted)
    show "sorted_wrt (\<lambda>a b. cmp a b \<le> 0) (jsSort cmp xs)" using Cons.IH c by simp
  next
    fix b assume "b \<in> set (jsSort cmp xs)"
    then show "cmp x b \<le> 0 \<or> cmp b x \<le> 0" using tot [of x b] by (simp add: set_jsSort)
  next
    fix b c assume "b \<in> set (jsSort cmp xs)" "c \<in> set (jsSort cmp xs)" "cmp x b \<le> 0" "cmp b c \<le> 0"
    then show "cmp x c \<le> 0" using tr [of x b c] by (simp add: set_jsSort)
  qed
  then show ?case by (simp add: jsSort_Cons)
qed

text \<open>The collator is consistent on every list of names it covers.\<close>

lemma compareTokens_total: "compareTokens xs ys \<le> 0 \<or> compareTokens ys xs \<le> 0"
  by (induction xs ys rule: compareTokens.induct) (auto simp: prod_eq_iff)

lemma compareTokens_trans:
  "compareTokens xs ys \<le> 0 \<Longrightarrow> compareTokens ys zs \<le> 0 \<Longrightarrow> compareTokens xs zs \<le> 0"
proof (induction xs ys arbitrary: zs rule: compareTokens.induct)
  case 1
  then show ?case by simp
next
  case (2 y ys)
  then show ?case by (cases zs) auto
next
  case (3 x xs)
  then show ?case by simp
next
  case (4 x xs y ys)
  then show ?case
    by (cases zs) (auto simp: prod_eq_iff split: if_splits)
qed

lemma naturalSort_collated:
  assumes "collated a" and "collated b"
  shows "naturalSort a b = compareTokens (the (collationKey a)) (the (collationKey b))"
  using assms by (auto simp: naturalSort_def collated_def)

lemma naturalSort_consistentOn:
  assumes "\<forall>n\<in>set names. collated n"
  shows "consistentOn naturalSort names"
  unfolding consistentOn_def
proof (intro conjI ballI impI)
  fix a b assume "a \<in> set names" "b \<in> set names"
  then have "collated a" "collated b" using assms by blast+
  then show "naturalSort a b \<le> 0 \<or> naturalSort b a \<le> 0"
    using compareTokens_total by (simp add: naturalSort_collated)
next
  fix a b c assume "a \<in> set names" "b \<in> set names" "c \<in> set names"
    and le: "naturalSort a b \<le> 0 \<and> naturalSort b c \<le> 0"
  then have k: "collated a" "collated b" "collated c" using assms by blast+
  with le have "compareTokens (the (collationKey a)) (the (collationKey b)) \<le> 0"
    and "compareTokens (the (collationKey b)) (the (collationKey c)) \<le> 0"
    by (simp_all add: naturalSort_collated)
  then have "compareTokens (the (collationKey a)) (the (collationKey c)) \<le> 0"
    by (rule compareTokens_trans)
  with k show "naturalSort a c \<le> 0" by (simp add: naturalSort_collated)
qed

text \<open>The comparator on some pairs of names: punctuation in the order of the collation
  data, an accented letter as its base letter, case ignored, numbers by value and without
  their leading zeros.\<close>

lemma naturalSort_examples:
  "naturalSort ''a_b'' ''a.b'' = - 1"
  "naturalSort [CHR 0xE9] ''e'' = 0"
  "naturalSort ''1. Setup.mp4'' ''1. Setup_v2.mp4'' = 1"
  "naturalSort ''1. Intro.mp4'' ''1. intro.mp4'' = 0"
  "naturalSort ''2. a.mp4'' ''10. a.mp4'' = - 1"
  "naturalSort ''02. a.mp4'' ''2. a.mp4'' = 0"
  by code_simp+



section \<open>Properties of the classifier\<close>

lemma dot_not_digit: "\<not> isDigit CHR ''.''"
  by code_simp

lemma dot_not_space: "\<not> isSpace CHR ''.''"
  by code_simp

lemma matchNumberDot_digits:
  assumes "ds \<noteq> []" and "\<forall>c\<in>set ds. isDigit c"
  shows "matchNumberDot (ds @ ''.'' @ rest) = Some (ds, rest)"
proof -
  have "takeWhile isDigit (ds @ CHR ''.'' # rest) = ds"
    using assms(2) by (simp add: takeWhile_append2 dot_not_digit)
  moreover have "dropWhile isDigit (ds @ CHR ''.'' # rest) = CHR ''.'' # rest"
    using assms(2) by (simp add: dropWhile_append2 dot_not_digit)
  ultimately show ?thesis using assms(1) by (simp add: matchNumberDot_def)
qed

lemma matchNumberDot_SomeD:
  assumes "matchNumberDot s = Some (ds, rest)"
  shows "s = ds @ ''.'' @ rest \<and> ds \<noteq> [] \<and> (\<forall>c\<in>set ds. isDigit c)"
proof -
  from assms obtain c where d: "dropWhile isDigit s = c # rest" and c: "c = CHR ''.''"
    and ds: "ds = takeWhile isDigit s" and ne: "ds \<noteq> []"
    by (auto simp: matchNumberDot_def Let_def split: list.splits if_splits)
  have "s = takeWhile isDigit s @ dropWhile isDigit s" by simp
  then have "s = ds @ ''.'' @ rest" using d c ds by simp
  moreover have "\<forall>c\<in>set ds. isDigit c" unfolding ds by (auto dest: set_takeWhileD)
  ultimately show ?thesis using ne by simp
qed

lemma space_toLowerChar: "isSpace c \<Longrightarrow> toLowerChar c = c"
  by (auto simp: isSpace_def toLowerChar_def Let_def)

lemma space_not_dot: "isSpace c \<Longrightarrow> c \<noteq> CHR ''.''"
  using dot_not_space by auto

lemma endsWithCI_space:
  assumes "isSpace c"
  shows "endsWithCI (CHR ''.'' # e) (c # r) = endsWithCI (CHR ''.'' # e) r"
proof (cases "length (CHR ''.'' # e) \<le> length r")
  case True
  then have "Suc (length r) - length (CHR ''.'' # e) = Suc (length r - length (CHR ''.'' # e))"
    by simp
  then show ?thesis using True by (simp add: endsWithCI_def)
next
  case False
  show ?thesis
  proof (cases "length (CHR ''.'' # e) = Suc (length r)")
    case True
    then have "toLowerCase (drop (length (c # r) - length (CHR ''.'' # e)) (c # r)) = toLowerChar c # toLowerCase r"
      by (simp add: toLowerCase_def)
    then show ?thesis using False assms space_toLowerChar [OF assms] space_not_dot [OF assms]
      by (auto simp: endsWithCI_def)
  next
    case False
    then show ?thesis using \<open>\<not> length (CHR ''.'' # e) \<le> length r\<close> by (auto simp: endsWithCI_def)
  qed
qed

lemma stripExtension_space:
  assumes "isSpace c"
  shows "stripExtension (c # r) = c # stripExtension r"
proof -
  have eq: "(\<lambda>e. endsWithCI (CHR ''.'' # e) (c # r)) = (\<lambda>e. endsWithCI (CHR ''.'' # e) r)"
    using endsWithCI_space [OF assms] by auto
  show ?thesis
  proof (cases "find (\<lambda>e. endsWithCI (CHR ''.'' # e) r) extensions")
    case None
    then show ?thesis by (simp add: stripExtension_def eq)
  next
    case (Some e)
    then have "endsWithCI (CHR ''.'' # e) r" by (auto simp: find_Some_iff)
    then have "length e + 1 \<le> length r" by (simp add: endsWithCI_def)
    then have "length (c # r) - (length e + 1) = Suc (length r - (length e + 1))" by simp
    then show ?thesis using Some by (simp add: stripExtension_def eq)
  qed
qed

lemma trim_space: "isSpace c \<Longrightarrow> trim (c # s) = trim s"
  by (simp add: trim_def)

lemma trim_stripExtension_dropWhile:
  "trim (stripExtension (dropWhile isSpace r)) = trim (stripExtension r)"
  by (induction r) (simp_all add: stripExtension_space trim_space)

lemma digits_iff: "(\<forall>c\<in>set ds. isDigit c) \<longleftrightarrow> set ds \<subseteq> set ''0123456789''"
  by (simp only: isDigit_def subset_eq)

lemma digitRun_eq: "digitRun_spec s = (takeWhile isDigit s, dropWhile isDigit s)"
  by (induction s) (simp_all add: isDigit_def)

lemma ordinalPrefix_spec_eq: "ordinalPrefix_spec s = matchNumberDot s"
proof (cases "dropWhile isDigit s")
  case Nil
  then show ?thesis
    by (simp add: ordinalPrefix_spec_def matchNumberDot_def digitRun_eq Let_def
        del: dropWhile_eq_Nil_conv)
next
  case (Cons c rest)
  then show ?thesis
    by (simp add: ordinalPrefix_spec_def matchNumberDot_def digitRun_eq Let_def
        del: dropWhile_eq_Nil_conv)
qed

lemma of_char_eq_nat: "n < 256 \<Longrightarrow> ((of_char c :: nat) = n) = (c = char_of n)"
  by (metis char_of_char of_char_of mod_less)

lemma whiteSpace_codes:
  "whiteSpace_spec = map char_of [9, 10, 11, 12, 13, 32, 160 :: nat]"
  by code_simp

lemma isSpace_whiteSpace: "isSpace c \<longleftrightarrow> c \<in> set whiteSpace_spec"
  by (simp add: isSpace_def whiteSpace_codes of_char_eq_nat)

lemma dropWhiteSpace_eq: "dropWhiteSpace_spec s = dropWhile isSpace s"
  by (induction s) (simp_all add: isSpace_whiteSpace)

lemma trim_spec_eq: "trim_spec s = trim s"
  by (simp add: trim_spec_def trim_def dropWhiteSpace_eq)

lemma upper_codes: "''ABCDEFGHIJKLMNOPQRSTUVWXYZ'' = map char_of [65..<91 :: nat]"
  by code_simp

lemma lower_codes:
  "''abcdefghijklmnopqrstuvwxyz'' = map (\<lambda>n. char_of (n + 32)) [65..<91 :: nat]"
  by code_simp

lemma foldAscii_eq:
  "foldAscii_spec c =
     (if 65 \<le> (of_char c :: nat) \<and> (of_char c :: nat) \<le> 90 then char_of ((of_char c :: nat) + 32)
      else c)"
proof -
  let ?U = "map char_of [65..<91 :: nat]"
  have z: "zip ''ABCDEFGHIJKLMNOPQRSTUVWXYZ'' ''abcdefghijklmnopqrstuvwxyz'' =
        zip ?U (map (\<lambda>c. char_of ((of_char c :: nat) + 32)) ?U)"
    unfolding upper_codes lower_codes by (simp add: map_eq_conv)
  have m: "c \<in> set ?U \<longleftrightarrow> 65 \<le> (of_char c :: nat) \<and> (of_char c :: nat) \<le> 90"
  proof
    assume "c \<in> set ?U"
    then obtain n :: nat where "65 \<le> n" "n < 91" "c = char_of n" by auto
    then show "65 \<le> (of_char c :: nat) \<and> (of_char c :: nat) \<le> 90" by simp
  next
    assume a: "65 \<le> (of_char c :: nat) \<and> (of_char c :: nat) \<le> 90"
    have "c = char_of (of_char c :: nat)" by simp
    moreover have "(of_char c :: nat) \<in> set [65..<91]" unfolding set_upt using a by simp
    ultimately show "c \<in> set ?U" by (metis image_eqI set_map)
  qed
  show ?thesis
    unfolding foldAscii_spec_def z map_of_zip_map using m by simp
qed

lemma fold_agree:
  "toLowerChar c = foldAscii_spec c \<or>
   (128 \<le> (of_char (toLowerChar c) :: nat) \<and> 128 \<le> (of_char (foldAscii_spec c) :: nat))"
  by (auto simp: toLowerChar_def foldAscii_eq Let_def)

lemma map_fold_agree:
  "\<forall>l\<in>set p. (of_char l :: nat) < 128 \<Longrightarrow> map toLowerChar x = p \<longleftrightarrow> map foldAscii_spec x = p"
proof (induction x arbitrary: p)
  case Nil
  then show ?case by simp
next
  case (Cons c x)
  show ?case
  proof (cases p)
    case Nil
    then show ?thesis by simp
  next
    case (Cons l q)
    have "toLowerChar c = l \<longleftrightarrow> foldAscii_spec c = l"
      using fold_agree [of c] Cons.prems Cons by auto
    moreover have "map toLowerChar x = q \<longleftrightarrow> map foldAscii_spec x = q"
      using Cons.IH [of q] Cons.prems Cons by simp
    ultimately show ?thesis using Cons by simp
  qed
qed

lemma recognised_ascii:
  "\<forall>e\<in>set recognisedExtensions_spec. \<forall>l\<in>set (CHR ''.'' # e). (of_char l :: nat) < 128"
  by code_simp

lemma hasExtension_spec_eq:
  assumes "e \<in> set recognisedExtensions_spec"
  shows "hasExtension_spec e s = endsWithCI (CHR ''.'' # e) s"
proof -
  have "\<forall>l\<in>set (CHR ''.'' # e). (of_char l :: nat) < 128" using recognised_ascii assms by blast
  from map_fold_agree [OF this] show ?thesis
    by (auto simp: hasExtension_spec_def endsWithCI_def toLowerCase_def Suc_le_eq)
qed

lemma extensions_recognised: "extensions = recognisedExtensions_spec"
  by (simp add: extensions_def recognisedExtensions_spec_def)

lemma withoutExtension_spec_eq: "withoutExtension_spec s = stripExtension s"
proof -
  have "find (\<lambda>e. hasExtension_spec e s) recognisedExtensions_spec =
        find (\<lambda>e. endsWithCI (CHR ''.'' # e) s) recognisedExtensions_spec"
    by (rule find_cong) (simp_all add: hasExtension_spec_eq)
  then show ?thesis
    by (simp add: withoutExtension_spec_def stripExtension_def extensions_recognised
        split: option.splits)
qed

lemma cleanLessonName_spec: "cleanLessonName filename = displayName_spec filename"
  by (simp add: cleanLessonName_def displayName_spec_def stripNumberPrefix_def
      trim_stripExtension_dropWhile ordinalPrefix_spec_eq withoutExtension_spec_eq trim_spec_eq
      split: option.splits)

text \<open>
  Claim C6.  The ordinal of a name is its leading run of digits when that run is not
  empty and a dot follows it, and \<open>''0''\<close> when the name has no such start.  The display
  name is the name without the leading \<open>ordinal.\<close> prefix and without a trailing
  recognised extension, trimmed.  \<open>''10. Final.mp4''\<close> is a video with ordinal \<open>''10''\<close>
  and display name \<open>''Final''\<close>; \<open>''readme.pdf''\<close> is a pdf with ordinal \<open>''0''\<close>.
\<close>

theorem classifier_ordinal_displayName:
  "(ds \<noteq> [] \<and> set ds \<subseteq> set ''0123456789'' \<longrightarrow> extractLessonNumber (ds @ ''.'' @ rest) = ds)
   \<and> ((\<nexists>ds rest. name = ds @ ''.'' @ rest \<and> ds \<noteq> [] \<and> set ds \<subseteq> set ''0123456789'')
        \<longrightarrow> extractLessonNumber name = ''0'')
   \<and> cleanLessonName name = displayName_spec name
   \<and> getFileType ''10. Final.mp4'' = Video
   \<and> extractLessonNumber ''10. Final.mp4'' = ''10''
   \<and> cleanLessonName ''10. Final.mp4'' = ''Final''
   \<and> getFileType ''readme.pdf'' = Pdf
   \<and> extractLessonNumber ''readme.pdf'' = ''0''
   \<and> cleanLessonName ''readme.pdf'' = ''readme''
   \<and> cleanLessonName ''1. Introduction'' = ''Introduction''
   \<and> cleanLessonName ''2.Notes.Html'' = ''Notes''
   \<and> cleanLessonName ''03.   Setup Guide .TXT'' = ''Setup Guide''
   \<and> cleanLessonName ''4. slides.odp '' = ''slides.odp''
   \<and> cleanLessonName '' 5. clip.vtt'' = ''5. clip''
   \<and> cleanLessonName ''6. bundle.mp4.zip'' = ''bundle.mp4''
   \<and> cleanLessonName ''7. mp4'' = ''mp4''"
proof -
  have a: "ds \<noteq> [] \<and> set ds \<subseteq> set ''0123456789'' \<longrightarrow> extractLessonNumber (ds @ ''.'' @ rest) = ds"
  proof
    assume h: "ds \<noteq> [] \<and> set ds \<subseteq> set ''0123456789''"
    then have ne: "ds \<noteq> []" by (rule conjunct1)
    from h have "set ds \<subseteq> set ''0123456789''" by (rule conjunct2)
    then have "\<forall>c\<in>set ds. isDigit c" by (simp only: digits_iff)
    with ne have "matchNumberDot (ds @ ''.'' @ rest) = Some (ds, rest)"
      by (rule matchNumberDot_digits)
    then show "extractLessonNumber (ds @ ''.'' @ rest) = ds"
      by (simp only: extractLessonNumber_def option.case prod.case)
  qed
  have b: "(\<nexists>ds rest. name = ds @ ''.'' @ rest \<and> ds \<noteq> [] \<and> set ds \<subseteq> set ''0123456789'')
        \<longrightarrow> extractLessonNumber name = ''0''"
  proof
    assume n: "\<nexists>ds rest. name = ds @ ''.'' @ rest \<and> ds \<noteq> [] \<and> set ds \<subseteq> set ''0123456789''"
    have "matchNumberDot name = None"
    proof (cases "matchNumberDot name")
      case None then show ?thesis .
    next
      case (Some p)
      then have "matchNumberDot name = Some (fst p, snd p)" by simp
      then have "name = fst p @ ''.'' @ snd p \<and> fst p \<noteq> [] \<and> (\<forall>c\<in>set (fst p). isDigit c)"
        by (rule matchNumberDot_SomeD)
      then have "name = fst p @ ''.'' @ snd p \<and> fst p \<noteq> [] \<and> set (fst p) \<subseteq> set ''0123456789''"
        unfolding digits_iff .
      then have "\<exists>ds rest. name = ds @ ''.'' @ rest \<and> ds \<noteq> [] \<and> set ds \<subseteq> set ''0123456789''"
        by (intro exI)
      with n show ?thesis by (rule notE)
    qed
    then show "extractLessonNumber name = ''0''"
      by (simp only: extractLessonNumber_def option.case)
  qed
  have p: "cleanLessonName name = displayName_spec name" by (rule cleanLessonName_spec)
  have c: "getFileType ''10. Final.mp4'' = Video" by code_simp
  have d: "extractLessonNumber ''10. Final.mp4'' = ''10''" by code_simp
  have e: "cleanLessonName ''10. Final.mp4'' = ''Final''" by code_simp
  have f: "getFileType ''readme.pdf'' = Pdf" by code_simp
  have g: "extractLessonNumber ''readme.pdf'' = ''0''" by code_simp
  have h: "cleanLessonName ''readme.pdf'' = ''readme''" by code_simp
  have i: "cleanLessonName ''1. Introduction'' = ''Introduction''" by code_simp
  have j: "cleanLessonName ''2.Notes.Html'' = ''Notes''" by code_simp
  have k: "cleanLessonName ''03.   Setup Guide .TXT'' = ''Setup Guide''" by code_simp
  have l: "cleanLessonName ''4. slides.odp '' = ''slides.odp''" by code_simp
  have m: "cleanLessonName '' 5. clip.vtt'' = ''5. clip''" by code_simp
  have n: "cleanLessonName ''6. bundle.mp4.zip'' = ''bundle.mp4''" by code_simp
  have o: "cleanLessonName ''7. mp4'' = ''mp4''" by code_simp
  show ?thesis by (intro conjI) (fact a b p c d e f g h i j k l m n o)+
qed

theorem classifier_ordinal_displayName_witness:
  "extractLessonNumber (''007'' @ ''.'' @ '' Bond.mp4'') = ''007''
   \<and> extractLessonNumber ''7 Bond.mp4'' = ''0''
   \<and> displayName_spec ''007. Bond.MP4 '' = ''Bond.MP4''
   \<and> cleanLessonName ''007. Bond.MP4 '' = ''Bond.MP4''"
proof -
  have h1: "''007'' \<noteq> [] \<and> set ''007'' \<subseteq> set ''0123456789''" by simp
  have h2: "\<nexists>ds rest. ''7 Bond.mp4'' = ds @ ''.'' @ rest \<and> ds \<noteq> [] \<and> set ds \<subseteq> set ''0123456789''"
  proof
    assume "\<exists>ds rest. ''7 Bond.mp4'' = ds @ ''.'' @ rest \<and> ds \<noteq> [] \<and> set ds \<subseteq> set ''0123456789''"
    then obtain ds rest where e: "''7 Bond.mp4'' = ds @ ''.'' @ rest" and ne: "ds \<noteq> []"
      and dg: "set ds \<subseteq> set ''0123456789''" by blast
    from dg have "\<forall>c\<in>set ds. isDigit c" by (simp only: digits_iff)
    with ne have "matchNumberDot (ds @ ''.'' @ rest) = Some (ds, rest)"
      by (rule matchNumberDot_digits)
    with e have "matchNumberDot ''7 Bond.mp4'' = Some (ds, rest)" by (simp only:)
    moreover have "matchNumberDot ''7 Bond.mp4'' = None" by code_simp
    ultimately show False by simp
  qed
  have s: "displayName_spec ''007. Bond.MP4 '' = ''Bond.MP4''" by code_simp
  note t = classifier_ordinal_displayName
    [where ds = "''007''" and rest = "'' Bond.mp4''" and name = "''7 Bond.mp4''"]
  note u = classifier_ordinal_displayName
    [where ds = "''007''" and rest = "'' Bond.mp4''" and name = "''007. Bond.MP4 ''"]
  from t have "''007'' \<noteq> [] \<and> set ''007'' \<subseteq> set ''0123456789''
      \<longrightarrow> extractLessonNumber (''007'' @ ''.'' @ '' Bond.mp4'') = ''007''"
    by (rule conjunct1)
  from this h1 have r1: "extractLessonNumber (''007'' @ ''.'' @ '' Bond.mp4'') = ''007''"
    by (rule mp)
  from t have "(\<nexists>ds rest. ''7 Bond.mp4'' = ds @ ''.'' @ rest \<and> ds \<noteq> [] \<and> set ds \<subseteq> set ''0123456789'')
      \<longrightarrow> extractLessonNumber ''7 Bond.mp4'' = ''0''"
    by (rule conjunct2 [THEN conjunct1])
  from this h2 have r2: "extractLessonNumber ''7 Bond.mp4'' = ''0''"
    by (rule mp)
  from u have "cleanLessonName ''007. Bond.MP4 '' = displayName_spec ''007. Bond.MP4 ''"
    by (rule conjunct2 [THEN conjunct2, THEN conjunct1])
  with s have r3: "cleanLessonName ''007. Bond.MP4 '' = ''Bond.MP4''" by (simp only:)
  show ?thesis by (intro conjI) (fact r1 r2 s r3)+
qed

text \<open>
  Claim C5.  The claim gives a name without a dot the fallback role.  The classifier
  reads a name without a dot as being its own extension: the file named \<open>''mp4''\<close> is
  classified as a video.
\<close>

theorem getFileType_name_without_dot: "getFileType ''mp4'' = Video"
  by code_simp

text \<open>
  An extension that names a property which the table inherits is not given the fallback
  role either; for all other names with a dot the table and the fallback decide.
\<close>

lemma getFileType_inherited: "getFileType ''notes.constructor'' = Inherited ''constructor''"
  by code_simp

lemma splitPop_dotted:
  "CHR ''.'' \<notin> set e \<Longrightarrow> splitPop (b @ ''.'' @ e) = e"
proof -
  assume a: "CHR ''.'' \<notin> set e"
  have "takeWhile (\<lambda>c. c \<noteq> CHR ''.'') (rev e @ CHR ''.'' # rev b) = rev e"
    using a by (subst takeWhile_append2) auto
  then show ?thesis by (simp add: splitPop_def)
qed

lemma getFileType_dotted:
  assumes "CHR ''.'' \<notin> set e"
  shows "getFileType (b @ ''.'' @ e) =
     (case map_of typeMap (toLowerCase e) of
        Some t \<Rightarrow> t
      | None \<Rightarrow> if toLowerCase e \<in> set objectPrototypeKeys then Inherited (toLowerCase e)
                else File)"
  using splitPop_dotted [OF assms, of b] by (simp add: getFileType_def Let_def)

section \<open>Properties of the grouper\<close>

lemma scanFile_nonVideoFiles:
  "nonVideoFiles (scanFile st f) = nonVideoFiles st @ (if isMedia f then [] else [f])"
  by (simp add: scanFile_def isMedia_def Let_def)

lemma foldl_scanFile_nonVideoFiles:
  "nonVideoFiles (foldl scanFile st fs) = nonVideoFiles st @ filter (\<lambda>f. \<not> isMedia f) fs"
  by (induction fs arbitrary: st) (simp_all add: scanFile_nonVideoFiles)

lemma scanFile_totalVideosFound:
  "totalVideosFound (scanFile st f) =
     totalVideosFound st + (if getFileType f = Video then 1 else 0)"
  by (simp add: scanFile_def Let_def)

lemma foldl_scanFile_totalVideosFound:
  "totalVideosFound (foldl scanFile st fs) =
     totalVideosFound st + length (filter (\<lambda>f. getFileType f = Video) fs)"
  by (induction fs arbitrary: st) (simp_all add: scanFile_totalVideosFound)

lemma scanFile_lessonGroups_cong:
  "lessonGroups st = lessonGroups st' \<Longrightarrow>
     lessonGroups (scanFile st f) = lessonGroups (scanFile st' f)"
  by (simp add: scanFile_def Let_def)

lemma foldl_scanFile_lessonGroups_cong:
  "lessonGroups st = lessonGroups st' \<Longrightarrow>
     lessonGroups (foldl scanFile st fs) = lessonGroups (foldl scanFile st' fs)"
proof (induction fs arbitrary: st st')
  case Nil
  then show ?case by simp
next
  case (Cons f fs)
  show ?case using Cons.IH [OF scanFile_lessonGroups_cong [OF Cons.prems]] by simp
qed

lemma groupFiles_lessonGroups: "lessonGroups (groupFiles n fs) = lessonGroups (groupFiles 0 fs)"
  unfolding groupFiles_def by (rule foldl_scanFile_lessonGroups_cong) simp

lemma groupFiles_nonVideoFiles: "nonVideoFiles (groupFiles n fs) = filter (\<lambda>f. \<not> isMedia f) fs"
  by (simp add: groupFiles_def foldl_scanFile_nonVideoFiles)

lemma groupFiles_totalVideosFound:
  "totalVideosFound (groupFiles n fs) = n + length (filter (\<lambda>f. getFileType f = Video) fs)"
  by (simp add: groupFiles_def foldl_scanFile_totalVideosFound)

lemma length_filter_jsSort: "length (filter P (jsSort cmp xs)) = length (filter P xs)"
proof -
  have "mset (filter P (jsSort cmp xs)) = mset (filter P xs)"
    by (simp add: mset_jsSort)
  then show ?thesis by (metis size_mset)
qed

lemma parseSection_fst: "fst (parseSection cmp n e) = sectionOf cmp e"
  by (simp add: parseSection_def sectionOf_def Let_def videoLessons_def
      groupFiles_lessonGroups [of n] groupFiles_nonVideoFiles)

lemma parseSection_snd: "snd (parseSection cmp n e) = n + videoCount e"
  by (simp add: parseSection_def Let_def groupFiles_totalVideosFound videoCount_def
      length_filter_jsSort)

lemma addSection_eq:
  "addSection cmp (acc, n) e =
     (acc @ filter (\<lambda>s. lessons s \<noteq> []) [sectionOf cmp e], n + videoCount e)"
proof -
  obtain sec m where p: "parseSection cmp n e = (sec, m)" by (cases "parseSection cmp n e")
  have "sec = sectionOf cmp e" "m = n + videoCount e"
    using parseSection_fst [of cmp n e] parseSection_snd [of cmp n e] p by simp_all
  then show ?thesis using p by (simp add: addSection_def)
qed

lemma foldl_addSection:
  "foldl (addSection cmp) (acc, n) es =
     (acc @ filter (\<lambda>s. lessons s \<noteq> []) (map (sectionOf cmp) es),
      n + sum_list (map videoCount es))"
  by (induction es arbitrary: acc n) (simp_all add: addSection_eq)

lemma sum_list_jsSort: "sum_list (map f (jsSort cmp xs)) = (sum_list (map f xs) :: nat)"
proof -
  have "mset (map f (jsSort cmp xs)) = mset (map f xs)" by (simp add: mset_jsSort)
  then have "sum_mset (mset (map f (jsSort cmp xs))) = sum_mset (mset (map f xs))" by simp
  then show ?thesis by (simp only: sum_mset_sum_list)
qed

text \<open>The builder in closed form: the two loops are a filter, a sum and a sort.\<close>

lemma parseCourseStructure_unfold:
  "parseCourseStructure cmp courseDir =
     (if subdirs courseDir = [] then Inl NoSections
      else if videoTotal courseDir = 0 then Inl NoVideos
      else if retainedSections cmp courseDir = [] then Inl InvalidFormat
      else Inr (retainedSections cmp courseDir))"
  by (simp add: parseCourseStructure_def subdirs_def [symmetric] Let_def foldl_addSection
      videoTotal_def retainedSections_def sum_list_jsSort del: sum_list_eq_0_iff)

lemma bucket_append: "bucket k (fs @ gs) = bucket k fs @ bucket k gs"
  by (simp add: bucket_def)

lemma bucket_single:
  "bucket k [f] = (if isMedia f \<and> extractLessonNumber f = k then [mkFile f] else [])"
  by (simp add: bucket_def)

lemma bucket_empty_if_unseen:
  "k \<notin> extractLessonNumber ` {f \<in> set seen. isMedia f} \<Longrightarrow> bucket k seen = []"
  by (auto simp: bucket_def filter_empty_conv)

lemma pushFile_set:
  "set (pushFile m k f) =
     (\<lambda>(k', g). if k' = k then (k', g\<lparr>files := files g @ [f]\<rparr>) else (k', g)) ` set m"
  by (simp add: pushFile_def)

lemma pushFile_keys: "fst ` set (pushFile m k f) = fst ` set m"
  by (force simp: pushFile_set split: if_splits)

lemma scanFile_groups_media:
  assumes "isMedia f"
  shows "lessonGroups (scanFile st f) =
     pushFile (if mapHas (lessonGroups st) (extractLessonNumber f) then lessonGroups st
               else lessonGroups st @
                    [(extractLessonNumber f,
                      \<lparr>number = extractLessonNumber f, lesson_name = cleanLessonName f,
                       files = []\<rparr>)])
       (extractLessonNumber f) (mkFile f)"
  using assms by (auto simp: scanFile_def isMedia_def Let_def mapSet_def mkFile_def)

lemma scanFile_groups_other:
  "\<not> isMedia f \<Longrightarrow> lessonGroups (scanFile st f) = lessonGroups st"
  by (simp add: scanFile_def isMedia_def Let_def)

lemma scanFile_groupsOf:
  assumes "groupsOf (lessonGroups st) seen"
  shows "groupsOf (lessonGroups (scanFile st f)) (seen @ [f])"
proof (cases "isMedia f")
  case False
  then have "bucket k (seen @ [f]) = bucket k seen" for k
    by (simp add: bucket_append bucket_single)
  moreover have "{x \<in> set (seen @ [f]). isMedia x} = {x \<in> set seen. isMedia x}"
    using False by auto
  ultimately show ?thesis
    using assms False by (simp add: groupsOf_def scanFile_groups_other)
next
  case True
  define k where "k = extractLessonNumber f"
  define base where "base =
    (if mapHas (lessonGroups st) k then lessonGroups st
     else lessonGroups st @ [(k, \<lparr>number = k, lesson_name = cleanLessonName f, files = []\<rparr>)])"
  have groups: "lessonGroups (scanFile st f) = pushFile base k (mkFile f)"
    using scanFile_groups_media [OF True, of st] by (simp add: base_def k_def)
  have inv: "\<And>k' g. (k', g) \<in> set (lessonGroups st) \<Longrightarrow> number g = k' \<and> files g = bucket k' seen"
    and keys: "fst ` set (lessonGroups st) = extractLessonNumber ` {x \<in> set seen. isMedia x}"
    using assms by (auto simp: groupsOf_def)
  have base_inv: "number g = k' \<and> files g = bucket k' seen" if "(k', g) \<in> set base" for k' g
  proof (cases "(k', g) \<in> set (lessonGroups st)")
    case True
    then show ?thesis using inv by simp
  next
    case False
    with that have new: "\<not> mapHas (lessonGroups st) k" "k' = k"
      "g = \<lparr>number = k, lesson_name = cleanLessonName f, files = []\<rparr>"
      by (auto simp: base_def split: if_splits)
    then have "k \<notin> extractLessonNumber ` {x \<in> set seen. isMedia x}"
      using keys by (simp add: mapHas_def)
    then have "bucket k seen = []" by (rule bucket_empty_if_unseen)
    then show ?thesis using new by simp
  qed
  have base_keys: "fst ` set base = insert k (fst ` set (lessonGroups st))"
    by (auto simp: base_def mapHas_def image_iff)
  have 1: "number g = k' \<and> files g = bucket k' (seen @ [f])"
    if "(k', g) \<in> set (pushFile base k (mkFile f))" for k' g
  proof -
    from that obtain g0 where g0: "(k', g0) \<in> set base"
      and g: "g = (if k' = k then g0\<lparr>files := files g0 @ [mkFile f]\<rparr> else g0)"
      by (auto simp: pushFile_set split: if_splits)
    from base_inv [OF g0] show ?thesis
      using g True by (auto simp: bucket_append bucket_single k_def)
  qed
  have 2: "fst ` set (pushFile base k (mkFile f)) =
           extractLessonNumber ` {x \<in> set (seen @ [f]). isMedia x}"
    using True by (auto simp: pushFile_keys base_keys keys k_def)
  show ?thesis
    unfolding groupsOf_def groups using 1 2 by auto
qed

lemma foldl_scanFile_groupsOf:
  "groupsOf (lessonGroups st) seen \<Longrightarrow>
     groupsOf (lessonGroups (foldl scanFile st fs)) (seen @ fs)"
proof (induction fs arbitrary: st seen)
  case Nil
  then show ?case by simp
next
  case (Cons f fs)
  from Cons.IH [OF scanFile_groupsOf [OF Cons.prems, of f]] show ?case by simp
qed

lemma groupFiles_groupsOf: "groupsOf (lessonGroups (groupFiles n fs)) fs"
  using foldl_scanFile_groupsOf
    [of "\<lparr>lessonGroups = [], nonVideoFiles = [], totalVideosFound = n\<rparr>" "[]" fs]
  by (simp add: groupFiles_def groupsOf_def)

lemma group_files:
  "l \<in> snd ` set (lessonGroups (groupFiles n fs)) \<Longrightarrow> files l = bucket (number l) fs"
  using groupFiles_groupsOf [of n fs] by (auto simp: groupsOf_def)

lemma hasVideo_iff: "hasVideo l \<longleftrightarrow> (\<exists>f\<in>set (files l). file_type f = Video)"
  by (simp add: hasVideo_def list_ex_iff)

lemma videoLessons_set:
  "set (videoLessons cmp st) = {l \<in> snd ` set (lessonGroups st). hasVideo l}"
  by (auto simp: videoLessons_def set_jsSort)

lemma video_file_retained:
  assumes "f \<in> set fs" and "getFileType f = Video"
  shows "videoLessons cmp (groupFiles n fs) \<noteq> []"
proof -
  have "isMedia f" using assms(2) by (simp add: isMedia_def)
  then have "extractLessonNumber f \<in> fst ` set (lessonGroups (groupFiles n fs))"
    using groupFiles_groupsOf [of n fs] assms(1) by (auto simp: groupsOf_def)
  then obtain g where g: "(extractLessonNumber f, g) \<in> set (lessonGroups (groupFiles n fs))"
    by force
  then have "files g = bucket (extractLessonNumber f) fs"
    using groupFiles_groupsOf [of n fs] by (auto simp: groupsOf_def)
  then have "mkFile f \<in> set (files g)"
    using assms(1) \<open>isMedia f\<close> by (simp add: bucket_def)
  moreover have "file_type (mkFile f) = Video" using assms(2) by (simp add: mkFile_def)
  ultimately have "hasVideo g" unfolding hasVideo_iff by blast
  then have "g \<in> set (videoLessons cmp (groupFiles n fs))"
    using g by (force simp: videoLessons_set)
  then show ?thesis by auto
qed

lemma sectionOf_lessons:
  "lessons (sectionOf cmp e) = videoLessons cmp (groupFiles 0 (jsSort cmp (fileNames e)))"
  by (simp add: sectionOf_def parseSection_def Let_def)

lemma videos_retain_a_section:
  assumes "videoTotal courseDir \<noteq> 0"
  shows "retainedSections cmp courseDir \<noteq> []"
proof -
  from assms obtain e where e: "e \<in> set (subdirs courseDir)" and v: "videoCount e \<noteq> 0"
    by (auto simp: videoTotal_def)
  from v obtain f where f: "f \<in> set (fileNames e)" "getFileType f = Video"
    by (auto simp: videoCount_def filter_empty_conv)
  then have "f \<in> set (jsSort cmp (fileNames e))" by (simp add: set_jsSort)
  from video_file_retained [OF this f(2)] have "lessons (sectionOf cmp e) \<noteq> []"
    by (simp add: sectionOf_lessons)
  moreover have "e \<in> set (jsSort (\<lambda>a b. cmp (entryName a) (entryName b)) (subdirs courseDir))"
    using e by (simp add: set_jsSort)
  ultimately have "sectionOf cmp e \<in> set (retainedSections cmp courseDir)"
    by (simp add: retainedSections_def)
  then show ?thesis by auto
qed

text \<open>The third message is never raised: where a video was found, its lesson and its
  section are kept.\<close>

lemma parseCourseStructure_never_InvalidFormat:
  "parseCourseStructure cmp courseDir \<noteq> Inl InvalidFormat"
  using videos_retain_a_section [of courseDir cmp]
  by (simp add: parseCourseStructure_unfold)

lemma parseCourseStructure_Inr:
  assumes "parseCourseStructure cmp courseDir = Inr cs"
  shows "cs = retainedSections cmp courseDir" and "cs \<noteq> []"
  using assms by (auto simp: parseCourseStructure_unfold split: if_splits)

lemma built_sections_nonempty:
  assumes "parseCourseStructure cmp courseDir = Inr cs" and "s \<in> set cs"
  shows "lessons s \<noteq> []"
  using assms parseCourseStructure_Inr(1) [OF assms(1)] by (simp add: retainedSections_def)

lemma built_lessons_have_video:
  assumes "parseCourseStructure cmp courseDir = Inr cs" and "s \<in> set cs" and "l \<in> set (lessons s)"
  shows "hasVideo l"
proof -
  from assms(2) parseCourseStructure_Inr(1) [OF assms(1)]
  obtain e where "s = sectionOf cmp e" by (auto simp: retainedSections_def)
  then show ?thesis using assms(3) by (simp add: sectionOf_lessons videoLessons_set)
qed

text \<open>
  Claim C1.  Of the groups the loop over a section's files has built, the section keeps
  exactly those that hold a video; a group holds the media files of its ordinal, so a
  group of subtitles only is dropped.  Every lesson of a built course structure holds a
  video.  The sorted list \<open>2.a.mp4, 2.a.vtt, 3.b.vtt\<close> keeps one group, of ordinal
  \<open>2\<close>, with the video and the subtitle.
\<close>

theorem retained_iff_video:
  "(l \<in> set (videoLessons cmp (groupFiles n fs)) \<longleftrightarrow>
      l \<in> snd ` set (lessonGroups (groupFiles n fs)) \<and> (\<exists>f\<in>set (files l). file_type f = Video))
   \<and> (l \<in> snd ` set (lessonGroups (groupFiles n fs)) \<longrightarrow> files l = bucket (number l) fs)
   \<and> (parseCourseStructure cmp courseDir = Inr cs \<longrightarrow>
        (\<forall>s\<in>set cs. \<forall>l\<in>set (lessons s). \<exists>f\<in>set (files l). file_type f = Video))
   \<and> videoLessons cmp (groupFiles n [''2.a.mp4'', ''2.a.vtt'', ''3.b.vtt'']) =
       [\<lparr>number = ''2'', lesson_name = ''a'',
         files = [\<lparr>file_name = ''2.a.mp4'', file_type = Video\<rparr>,
                  \<lparr>file_name = ''2.a.vtt'', file_type = Subtitle\<rparr>]\<rparr>]"
proof -
  have a: "l \<in> set (videoLessons cmp (groupFiles n fs)) \<longleftrightarrow>
      l \<in> snd ` set (lessonGroups (groupFiles n fs)) \<and> (\<exists>f\<in>set (files l). file_type f = Video)"
    by (simp add: videoLessons_set hasVideo_iff)
  have b: "l \<in> snd ` set (lessonGroups (groupFiles n fs)) \<longrightarrow> files l = bucket (number l) fs"
    using group_files by blast
  have c: "parseCourseStructure cmp courseDir = Inr cs \<longrightarrow>
        (\<forall>s\<in>set cs. \<forall>l\<in>set (lessons s). \<exists>f\<in>set (files l). file_type f = Video)"
    using built_lessons_have_video [of cmp courseDir cs] by (auto simp: hasVideo_iff)
  have g: "lessonGroups (groupFiles 0 [''2.a.mp4'', ''2.a.vtt'', ''3.b.vtt'']) =
      [(''2'', \<lparr>number = ''2'', lesson_name = ''a'',
         files = [\<lparr>file_name = ''2.a.mp4'', file_type = Video\<rparr>,
                  \<lparr>file_name = ''2.a.vtt'', file_type = Subtitle\<rparr>]\<rparr>),
       (''3'', \<lparr>number = ''3'', lesson_name = ''b'',
         files = [\<lparr>file_name = ''3.b.vtt'', file_type = Subtitle\<rparr>]\<rparr>)]"
    by code_simp
  have d: "videoLessons cmp (groupFiles n [''2.a.mp4'', ''2.a.vtt'', ''3.b.vtt'']) =
       [\<lparr>number = ''2'', lesson_name = ''a'',
         files = [\<lparr>file_name = ''2.a.mp4'', file_type = Video\<rparr>,
                  \<lparr>file_name = ''2.a.vtt'', file_type = Subtitle\<rparr>]\<rparr>]"
    unfolding videoLessons_def groupFiles_lessonGroups [of n] g
    by (simp add: hasVideo_def jsSort_def)
  show ?thesis using a b c d by blast
qed

theorem retained_iff_video_witness:
  "\<lparr>number = ''3'', lesson_name = ''b'',
     files = [\<lparr>file_name = ''3.b.vtt'', file_type = Subtitle\<rparr>]\<rparr>
     \<in> snd ` set (lessonGroups (groupFiles 0 [''2.a.mp4'', ''2.a.vtt'', ''3.b.vtt'']))
   \<and> \<lparr>number = ''3'', lesson_name = ''b'',
     files = [\<lparr>file_name = ''3.b.vtt'', file_type = Subtitle\<rparr>]\<rparr>
     \<notin> set (videoLessons naturalSort (groupFiles 0 [''2.a.mp4'', ''2.a.vtt'', ''3.b.vtt'']))
   \<and> bucket ''3'' [''2.a.mp4'', ''2.a.vtt'', ''3.b.vtt''] =
       [\<lparr>file_name = ''3.b.vtt'', file_type = Subtitle\<rparr>]
   \<and> parseCourseStructure naturalSort
        (DirectoryEntry ''Course''
          [DirectoryEntry ''1. Intro'' [FileEntry ''2.a.vtt'', FileEntry ''3.b.vtt'', FileEntry ''2.a.mp4'']]) =
       Inr [\<lparr>section_name = ''Intro'', rawName = ''1. Intro'',
             lessons = [\<lparr>number = ''2'', lesson_name = ''a'',
               files = [\<lparr>file_name = ''2.a.mp4'', file_type = Video\<rparr>,
                        \<lparr>file_name = ''2.a.vtt'', file_type = Subtitle\<rparr>]\<rparr>],
             hasNonVideoFiles = False\<rparr>]"
proof -
  let ?l = "\<lparr>number = ''3'', lesson_name = ''b'',
     files = [\<lparr>file_name = ''3.b.vtt'', file_type = Subtitle\<rparr>]\<rparr>"
  let ?fs = "[''2.a.mp4'', ''2.a.vtt'', ''3.b.vtt'']"
  let ?d = "DirectoryEntry ''Course''
          [DirectoryEntry ''1. Intro'' [FileEntry ''2.a.vtt'', FileEntry ''3.b.vtt'', FileEntry ''2.a.mp4'']]"
  let ?cs = "[\<lparr>section_name = ''Intro'', rawName = ''1. Intro'',
             lessons = [\<lparr>number = ''2'', lesson_name = ''a'',
               files = [\<lparr>file_name = ''2.a.mp4'', file_type = Video\<rparr>,
                        \<lparr>file_name = ''2.a.vtt'', file_type = Subtitle\<rparr>]\<rparr>],
             hasNonVideoFiles = False\<rparr>]"
  have g: "lessonGroups (groupFiles 0 ?fs) =
      [(''2'', \<lparr>number = ''2'', lesson_name = ''a'',
         files = [\<lparr>file_name = ''2.a.mp4'', file_type = Video\<rparr>,
                  \<lparr>file_name = ''2.a.vtt'', file_type = Subtitle\<rparr>]\<rparr>), (''3'', ?l)]"
    by code_simp
  have h1: "?l \<in> snd ` set (lessonGroups (groupFiles 0 ?fs))"
    unfolding g by simp
  have h2: "\<not> (\<exists>f\<in>set (files ?l). file_type f = Video)" by simp
  have h3: "parseCourseStructure naturalSort ?d = Inr ?cs" by code_simp
  show ?thesis
    using retained_iff_video [of ?l naturalSort 0 ?fs ?d ?cs] h1 h2 h3 by simp
qed

text \<open>
  Claim C2.  The builder checks three things in this order.  A root without
  subdirectories makes it fail with the "no sections" message.  Otherwise every
  subdirectory is processed, and it fails with the "no videos" message when no file of
  any subdirectory is a video, then with the "invalid format" message when no section
  has kept a lesson.  In every other case it returns the sections that kept a lesson, in
  sorted order.
\<close>

theorem parseCourseStructure_cases:
  "parseCourseStructure cmp courseDir =
     (if subdirs courseDir = [] then Inl NoSections
      else if videoTotal courseDir = 0 then Inl NoVideos
      else if retainedSections cmp courseDir = [] then Inl InvalidFormat
      else Inr (retainedSections cmp courseDir))"
  by (rule parseCourseStructure_unfold)

text \<open>
  Claim C2 at three roots: one without a subdirectory, one whose only subdirectory holds
  no video, and the two-section example of the specification.
\<close>

theorem parseCourseStructure_cases_witness:
  "parseCourseStructure naturalSort (DirectoryEntry ''Course'' [FileEntry ''1. Welcome.mp4'']) =
     Inl NoSections
   \<and> parseCourseStructure naturalSort
       (DirectoryEntry ''Course'' [DirectoryEntry ''2. Extra'' [FileEntry ''notes.pdf'']]) =
     Inl NoVideos
   \<and> parseCourseStructure naturalSort
       (DirectoryEntry ''Course''
         [DirectoryEntry ''2. Extra'' [FileEntry ''notes.pdf''],
          DirectoryEntry ''1. Intro'' [FileEntry ''1. Welcome.vtt'', FileEntry ''1. Welcome.mp4'']]) =
     Inr [\<lparr>section_name = ''Intro'', rawName = ''1. Intro'',
           lessons = [\<lparr>number = ''1'', lesson_name = ''Welcome'',
             files = [\<lparr>file_name = ''1. Welcome.mp4'', file_type = Video\<rparr>,
                      \<lparr>file_name = ''1. Welcome.vtt'', file_type = Subtitle\<rparr>]\<rparr>],
           hasNonVideoFiles = False\<rparr>]"
proof -
  let ?a = "DirectoryEntry ''Course'' [FileEntry ''1. Welcome.mp4'']"
  let ?b = "DirectoryEntry ''Course'' [DirectoryEntry ''2. Extra'' [FileEntry ''notes.pdf'']]"
  let ?c = "DirectoryEntry ''Course''
         [DirectoryEntry ''2. Extra'' [FileEntry ''notes.pdf''],
          DirectoryEntry ''1. Intro'' [FileEntry ''1. Welcome.vtt'', FileEntry ''1. Welcome.mp4'']]"
  have a: "subdirs ?a = []" by code_simp
  have b: "subdirs ?b \<noteq> [] \<and> videoTotal ?b = 0" by code_simp
  have c: "subdirs ?c \<noteq> [] \<and> videoTotal ?c \<noteq> 0" by code_simp
  have r: "retainedSections naturalSort ?c =
     [\<lparr>section_name = ''Intro'', rawName = ''1. Intro'',
           lessons = [\<lparr>number = ''1'', lesson_name = ''Welcome'',
             files = [\<lparr>file_name = ''1. Welcome.mp4'', file_type = Video\<rparr>,
                      \<lparr>file_name = ''1. Welcome.vtt'', file_type = Subtitle\<rparr>]\<rparr>],
           hasNonVideoFiles = False\<rparr>]" by code_simp
  show ?thesis
    using parseCourseStructure_cases [of naturalSort ?a]
      parseCourseStructure_cases [of naturalSort ?b]
      parseCourseStructure_cases [of naturalSort ?c] a b c r
    by simp
qed

text \<open>
  Claim C3, as the code has it.  The flag of a section is set exactly when one of the
  files of the subdirectory is neither a video nor a subtitle; a dropped bucket does not
  set it.
\<close>

theorem hasNonVideoFiles_iff:
  "hasNonVideoFiles (fst (parseSection cmp n e)) \<longleftrightarrow>
     (\<exists>f\<in>set (fileNames e). getFileType f \<noteq> Video \<and> getFileType f \<noteq> Subtitle)"
  by (auto simp: parseSection_def Let_def groupFiles_nonVideoFiles filter_empty_conv
      set_jsSort isMedia_def)

theorem hasNonVideoFiles_iff_witness:
  "hasNonVideoFiles (fst (parseSection naturalSort 0
      (DirectoryEntry ''1. Intro'' [FileEntry ''1. Welcome.mp4'', FileEntry ''notes.pdf''])))
   \<and> getFileType ''notes.pdf'' = Pdf"
proof -
  have t: "getFileType ''notes.pdf'' = Pdf" by code_simp
  have "\<exists>f\<in>set (fileNames (DirectoryEntry ''1. Intro''
          [FileEntry ''1. Welcome.mp4'', FileEntry ''notes.pdf''])).
        getFileType f \<noteq> Video \<and> getFileType f \<noteq> Subtitle"
    by code_simp
  then show ?thesis
    using hasNonVideoFiles_iff [of naturalSort 0
        "DirectoryEntry ''1. Intro'' [FileEntry ''1. Welcome.mp4'', FileEntry ''notes.pdf'']"] t
    by blast
qed

text \<open>
  Claim C3 as stated fails: in a section with the files \<open>2.a.mp4, 2.a.vtt, 3.b.vtt\<close> the
  bucket of ordinal \<open>3\<close> is dropped, and the flag is not set.
\<close>

theorem hasExtraFiles_dropped_bucket_counterexample:
  "\<not> hasNonVideoFiles (fst (parseSection naturalSort 0
        (DirectoryEntry ''1. Intro''
          [FileEntry ''2.a.mp4'', FileEntry ''2.a.vtt'', FileEntry ''3.b.vtt''])))
   \<and> droppedGroups (groupFiles 0 (jsSort naturalSort (fileNames
        (DirectoryEntry ''1. Intro''
          [FileEntry ''2.a.mp4'', FileEntry ''2.a.vtt'', FileEntry ''3.b.vtt''])))) =
       [\<lparr>number = ''3'', lesson_name = ''b'',
         files = [\<lparr>file_name = ''3.b.vtt'', file_type = Subtitle\<rparr>]\<rparr>]
   \<and> hasExtraFiles_spec (groupFiles 0 (jsSort naturalSort (fileNames
        (DirectoryEntry ''1. Intro''
          [FileEntry ''2.a.mp4'', FileEntry ''2.a.vtt'', FileEntry ''3.b.vtt'']))))"
  by code_simp

section \<open>Properties of navigation\<close>

lemma sectionAt_Some:
  "sectionAt cs i = Some s \<longleftrightarrow> 0 \<le> i \<and> i < int (length cs) \<and> s = cs ! nat i"
  by (auto simp: sectionAt_def)

text \<open>
  Claim C10.  In a course structure the builder has returned, from a lesson position in
  bounds, a step of \<open>+1\<close> or \<open>-1\<close> either loads a position in bounds (the neighbour in
  the same section, the last lesson of the section before, or the first lesson of the
  section after) or does nothing, which happens only at the first lesson of the course
  going back and at the last one going forward.
\<close>

theorem navigateLesson_in_bounds:
  assumes "parseCourseStructure cmp courseDir = Inr cs"
    and "inBounds cs si li"
    and "d = 1 \<or> d = - 1"
  shows "(navigateLesson cs (Some (si, li)) d = Stay \<and>
           ((d = - 1 \<and> si = 0 \<and> li = 0) \<or>
            (d = 1 \<and> si = int (length cs) - 1 \<and> li = int (length (lessons (cs ! nat si))) - 1)))
       \<or> (\<exists>si' li'. navigateLesson cs (Some (si, li)) d = LoadLesson si' li' \<and>
             inBounds cs si' li' \<and>
             ((si' = si \<and> li' = li + d) \<or>
              (d = - 1 \<and> li = 0 \<and> si' = si - 1 \<and> li' = int (length (lessons (cs ! nat si'))) - 1) \<or>
              (d = 1 \<and> li = int (length (lessons (cs ! nat si))) - 1 \<and> si' = si + 1 \<and> li' = 0)))"
proof -
  have ne: "\<And>i. 0 \<le> i \<Longrightarrow> i < int (length cs) \<Longrightarrow> lessons (cs ! nat i) \<noteq> []"
  proof -
    fix i :: int assume "0 \<le> i" "i < int (length cs)"
    then have "cs ! nat i \<in> set cs" by simp
    then show "lessons (cs ! nat i) \<noteq> []" by (rule built_sections_nonempty [OF assms(1)])
  qed
  from assms(2) have si: "0 \<le> si" "si < int (length cs)"
    and li: "0 \<le> li" "li < int (length (lessons (cs ! nat si)))"
    by (auto simp: inBounds_def sectionAt_def split: if_splits)
  have here: "sectionAt cs si = Some (cs ! nat si)" using si by (simp add: sectionAt_def)
  from assms(3) show ?thesis
  proof
    assume d: "d = 1"
    show ?thesis
    proof (cases "li + 1 < int (length (lessons (cs ! nat si)))")
      case True
      then have "navigateLesson cs (Some (si, li)) d = LoadLesson si (li + d)"
        using d li here by (simp add: navigateLesson_def Let_def)
      moreover have "inBounds cs si (li + d)"
        using d li True here by (simp add: inBounds_def)
      ultimately show ?thesis by blast
    next
      case False
      then have last: "li = int (length (lessons (cs ! nat si))) - 1" using li by simp
      show ?thesis
      proof (cases "si < int (length cs) - 1")
        case True
        then have "navigateLesson cs (Some (si, li)) d = LoadLesson (si + 1) 0"
          using d li here False by (simp add: navigateLesson_def Let_def)
        moreover have "inBounds cs (si + 1) 0"
          using True si ne [of "si + 1"] by (simp add: inBounds_def sectionAt_def)
        ultimately show ?thesis using d last by blast
      next
        case False
        then have "si = int (length cs) - 1" using si by simp
        moreover have "navigateLesson cs (Some (si, li)) d = Stay"
          using d li here False \<open>\<not> li + 1 < int (length (lessons (cs ! nat si)))\<close>
          by (simp add: navigateLesson_def Let_def)
        ultimately show ?thesis using d last by blast
      qed
    qed
  next
    assume d: "d = - 1"
    show ?thesis
    proof (cases "li = 0")
      case False
      then have "navigateLesson cs (Some (si, li)) d = LoadLesson si (li + d)"
        using d li here by (simp add: navigateLesson_def Let_def)
      moreover have "inBounds cs si (li + d)"
        using d li False here by (simp add: inBounds_def)
      ultimately show ?thesis by blast
    next
      case True
      show ?thesis
      proof (cases "si > 0")
        case False
        then have "si = 0" using si by simp
        moreover have "navigateLesson cs (Some (si, li)) d = Stay"
          using d True False by (simp add: navigateLesson_def Let_def)
        ultimately show ?thesis using d True by blast
      next
        case pos: True
        have prev: "sectionAt cs (si - 1) = Some (cs ! nat (si - 1))"
          using pos si by (simp add: sectionAt_def)
        have "navigateLesson cs (Some (si, li)) d =
                LoadLesson (si - 1) (int (length (lessons (cs ! nat (si - 1)))) - 1)"
          using d True pos prev by (simp add: navigateLesson_def Let_def)
        moreover have "inBounds cs (si - 1) (int (length (lessons (cs ! nat (si - 1)))) - 1)"
          using prev ne [of "si - 1"] pos si by (simp add: inBounds_def)
        ultimately show ?thesis using d True by blast
      qed
    qed
  qed
qed

theorem navigateLesson_in_bounds_witness:
  "parseCourseStructure naturalSort
     (DirectoryEntry ''Course''
       [DirectoryEntry ''1. Intro'' [FileEntry ''1. Welcome.mp4''],
        DirectoryEntry ''2. Basics'' [FileEntry ''1. First.mp4'', FileEntry ''2. Second.mp4'']]) =
     Inr [\<lparr>section_name = ''Intro'', rawName = ''1. Intro'',
           lessons = [\<lparr>number = ''1'', lesson_name = ''Welcome'',
             files = [\<lparr>file_name = ''1. Welcome.mp4'', file_type = Video\<rparr>]\<rparr>],
           hasNonVideoFiles = False\<rparr>,
          \<lparr>section_name = ''Basics'', rawName = ''2. Basics'',
           lessons = [\<lparr>number = ''1'', lesson_name = ''First'',
             files = [\<lparr>file_name = ''1. First.mp4'', file_type = Video\<rparr>]\<rparr>,
                      \<lparr>number = ''2'', lesson_name = ''Second'',
             files = [\<lparr>file_name = ''2. Second.mp4'', file_type = Video\<rparr>]\<rparr>],
           hasNonVideoFiles = False\<rparr>]
   \<and> navigateLesson
       [\<lparr>section_name = ''Intro'', rawName = ''1. Intro'',
           lessons = [\<lparr>number = ''1'', lesson_name = ''Welcome'',
             files = [\<lparr>file_name = ''1. Welcome.mp4'', file_type = Video\<rparr>]\<rparr>],
           hasNonVideoFiles = False\<rparr>,
          \<lparr>section_name = ''Basics'', rawName = ''2. Basics'',
           lessons = [\<lparr>number = ''1'', lesson_name = ''First'',
             files = [\<lparr>file_name = ''1. First.mp4'', file_type = Video\<rparr>]\<rparr>,
                      \<lparr>number = ''2'', lesson_name = ''Second'',
             files = [\<lparr>file_name = ''2. Second.mp4'', file_type = Video\<rparr>]\<rparr>],
           hasNonVideoFiles = False\<rparr>] (Some (0, 0)) 1 \<noteq> TypeError"
proof -
  let ?d = "DirectoryEntry ''Course''
       [DirectoryEntry ''1. Intro'' [FileEntry ''1. Welcome.mp4''],
        DirectoryEntry ''2. Basics'' [FileEntry ''1. First.mp4'', FileEntry ''2. Second.mp4'']]"
  let ?cs = "[\<lparr>section_name = ''Intro'', rawName = ''1. Intro'',
           lessons = [\<lparr>number = ''1'', lesson_name = ''Welcome'',
             files = [\<lparr>file_name = ''1. Welcome.mp4'', file_type = Video\<rparr>]\<rparr>],
           hasNonVideoFiles = False\<rparr>,
          \<lparr>section_name = ''Basics'', rawName = ''2. Basics'',
           lessons = [\<lparr>number = ''1'', lesson_name = ''First'',
             files = [\<lparr>file_name = ''1. First.mp4'', file_type = Video\<rparr>]\<rparr>,
                      \<lparr>number = ''2'', lesson_name = ''Second'',
             files = [\<lparr>file_name = ''2. Second.mp4'', file_type = Video\<rparr>]\<rparr>],
           hasNonVideoFiles = False\<rparr>]"
  have p: "parseCourseStructure naturalSort ?d = Inr ?cs" by code_simp
  have b: "inBounds ?cs 0 0" by (simp add: inBounds_def sectionAt_def)
  have "navigateLesson ?cs (Some (0, 0)) 1 \<noteq> TypeError"
    using navigateLesson_in_bounds [OF p b, of 1] by auto
  with p show ?thesis by simp
qed

section \<open>Properties of loading a course\<close>

text \<open>
  Claim C9, as the code has it.  When the builder fails during \<^verbatim>\<open>loadCourse\<close>, the
  course structure, the completed lessons, the current lesson, the course library, the
  stored library, progress and sessions and the handle store are what they were before
  the call; the course name and the course identifier are those of the folder whose
  load failed.
\<close>

theorem loadCourse_failure:
  assumes "directoryHandle v = Some h" and "parseCourseStructure cmp h = Inl err"
  shows "loadCourse cmp now shouldOpen v =
     (v\<lparr>courseName := entryName h,
        currentCourseId := Some (generateCourseId (entryName h))\<rparr>, ErrorModal)"
  using assms by (simp add: loadCourse_def Let_def)

theorem loadCourse_failure_witness:
  "loadCourse naturalSort 1700000000000 False
     (initialViewer\<lparr>directoryHandle := Some (DirectoryEntry ''New Course'' [FileEntry ''readme.txt''])\<rparr>) =
   (initialViewer\<lparr>directoryHandle := Some (DirectoryEntry ''New Course'' [FileEntry ''readme.txt'']),
      courseName := ''New Course'', currentCourseId := Some (generateCourseId ''New Course'')\<rparr>,
    ErrorModal)"
proof -
  have p: "parseCourseStructure naturalSort (DirectoryEntry ''New Course'' [FileEntry ''readme.txt''])
            = Inl NoSections" by code_simp
  show ?thesis
    using loadCourse_failure [of "initialViewer\<lparr>directoryHandle :=
        Some (DirectoryEntry ''New Course'' [FileEntry ''readme.txt''])\<rparr>"
        "DirectoryEntry ''New Course'' [FileEntry ''readme.txt'']" naturalSort NoSections
        1700000000000 False] p
    by simp
qed

text \<open>
  Claim C9 as stated fails: after a load of the folder \<open>New Course\<close>, which has no
  section, the course name and identifier are no longer the ones from before the attempt.
\<close>

theorem loadCourse_not_atomic_counterexample:
  "snd (loadCourse naturalSort 1700000000000 False
     (initialViewer\<lparr>directoryHandle := Some (DirectoryEntry ''New Course'' [FileEntry ''readme.txt''])\<rparr>))
     = ErrorModal
   \<and> courseName (fst (loadCourse naturalSort 1700000000000 False
     (initialViewer\<lparr>directoryHandle := Some (DirectoryEntry ''New Course'' [FileEntry ''readme.txt''])\<rparr>)))
     = ''New Course''
   \<and> currentCourseId (fst (loadCourse naturalSort 1700000000000 False
     (initialViewer\<lparr>directoryHandle := Some (DirectoryEntry ''New Course'' [FileEntry ''readme.txt''])\<rparr>)))
     = Some ''new_course''
   \<and> courseName (initialViewer\<lparr>directoryHandle := Some (DirectoryEntry ''New Course'' [FileEntry ''readme.txt''])\<rparr>)
     = []
   \<and> currentCourseId (initialViewer\<lparr>directoryHandle := Some (DirectoryEntry ''New Course'' [FileEntry ''readme.txt''])\<rparr>)
     = None"
proof -
  have p: "parseCourseStructure naturalSort (DirectoryEntry ''New Course'' [FileEntry ''readme.txt''])
            = Inl NoSections" by code_simp
  have g: "generateCourseId ''New Course'' = ''new_course''" by code_simp
  show ?thesis
    by (simp add: loadCourse_def Let_def p g initialViewer_def)
qed

section \<open>Enumeration order\<close>

lemma sorted_wrt_unique:
  assumes "sorted_wrt R xs" and "sorted_wrt R ys" and "mset xs = mset ys"
    and "\<And>a b. a \<in> set xs \<Longrightarrow> b \<in> set xs \<Longrightarrow> R a b \<Longrightarrow> R b a \<Longrightarrow> a = b"
  shows "xs = ys"
  using assms
proof (induction xs arbitrary: ys)
  case Nil
  then show ?case by simp
next
  case (Cons x xs)
  from Cons.prems(3) obtain y ys' where ys: "ys = y # ys'" by (cases ys) auto
  have sets: "set (x # xs) = set (y # ys')"
    using Cons.prems(3) ys by (metis set_mset_mset)
  have xy: "x = y"
  proof (rule ccontr)
    assume ne: "x \<noteq> y"
    then have "x \<in> set ys'" using sets by auto
    then have 1: "R y x" using Cons.prems(2) ys by simp
    have "y \<in> set xs" using ne sets by auto
    then have 2: "R x y" using Cons.prems(1) by simp
    have "x \<in> set (x # xs)" "y \<in> set (x # xs)" using sets by auto
    from Cons.prems(4) [OF this 2 1] ne show False by simp
  qed
  have "xs = ys'"
  proof (rule Cons.IH)
    show "sorted_wrt R xs" using Cons.prems(1) by simp
    show "sorted_wrt R ys'" using Cons.prems(2) ys by simp
    show "mset xs = mset ys'" using Cons.prems(3) ys xy by simp
    show "\<And>a b. a \<in> set xs \<Longrightarrow> b \<in> set xs \<Longrightarrow> R a b \<Longrightarrow> R b a \<Longrightarrow> a = b"
      using Cons.prems(4) by simp
  qed
  with xy ys show ?case by simp
qed

lemma consistentOn_cong: "set xs = set ys \<Longrightarrow> consistentOn cmp xs = consistentOn cmp ys"
  by (simp add: consistentOn_def)

lemma jsSort_perm_eq:
  assumes "mset xs = mset ys" and "strictOn cmp xs"
  shows "jsSort cmp xs = jsSort cmp ys"
proof (rule sorted_wrt_unique [where R = "\<lambda>a b. cmp a b \<le> 0"])
  have sets: "set xs = set ys" using assms(1) by (metis set_mset_mset)
  show "sorted_wrt (\<lambda>a b. cmp a b \<le> 0) (jsSort cmp xs)"
    using assms(2) by (simp add: strictOn_def sorted_jsSort)
  show "sorted_wrt (\<lambda>a b. cmp a b \<le> 0) (jsSort cmp ys)"
    using assms(2) consistentOn_cong [OF sets, of cmp] by (simp add: strictOn_def sorted_jsSort)
  show "mset (jsSort cmp xs) = mset (jsSort cmp ys)" using assms(1) by (simp add: mset_jsSort)
  show "\<And>a b. a \<in> set (jsSort cmp xs) \<Longrightarrow> b \<in> set (jsSort cmp xs) \<Longrightarrow>
          cmp a b \<le> 0 \<Longrightarrow> cmp b a \<le> 0 \<Longrightarrow> a = b"
    using assms(2) by (simp add: strictOn_def set_jsSort)
qed

lemma insertSorted_map:
  assumes "\<And>a b. c' (f a) (f b) = c a b"
  shows "map f (insertSorted c x ys) = insertSorted c' (f x) (map f ys)"
  by (induction ys) (simp_all add: assms)

lemma jsSort_map:
  assumes "\<And>a b. c' (f a) (f b) = c a b"
  shows "map f (jsSort c xs) = jsSort c' (map f xs)"
  by (induction xs) (simp_all add: jsSort_Cons insertSorted_map [of c' f c, OF assms] jsSort_def)

lemma sectionOf_same:
  assumes "dirView e = dirView e'" and "strictOn cmp (fileNames e)"
  shows "sectionOf cmp e = sectionOf cmp e'"
proof -
  have n: "entryName e = entryName e'" and m: "mset (fileNames e) = mset (fileNames e')"
    using assms(1) by (simp_all add: dirView_def)
  have "jsSort cmp (fileNames e) = jsSort cmp (fileNames e')"
    by (rule jsSort_perm_eq [OF m assms(2)])
  then show ?thesis by (simp add: sectionOf_def parseSection_def Let_def n)
qed

lemma map_sectionOf_same:
  "map dirView xs = map dirView ys \<Longrightarrow> \<forall>e\<in>set xs. strictOn cmp (fileNames e) \<Longrightarrow>
     map (sectionOf cmp) xs = map (sectionOf cmp) ys"
proof (induction xs arbitrary: ys)
  case Nil
  then show ?case by simp
next
  case (Cons x xs)
  from Cons.prems(1) obtain y ys' where ys: "ys = y # ys'" by (cases ys) auto
  have "sectionOf cmp x = sectionOf cmp y"
    using Cons.prems ys by (intro sectionOf_same) simp_all
  moreover have "map (sectionOf cmp) xs = map (sectionOf cmp) ys'"
    using Cons.prems ys by (intro Cons.IH) simp_all
  ultimately show ?case using ys by simp
qed

lemma videoCount_view: "videoCount e = size (filter_mset (\<lambda>f. getFileType f = Video) (snd (dirView e)))"
  by (simp add: videoCount_def dirView_def flip: mset_filter)

lemma videoTotal_same:
  assumes "sameListing d d'"
  shows "videoTotal d = videoTotal d'"
proof -
  let ?g = "\<lambda>v :: string \<times> string multiset. size (filter_mset (\<lambda>f. getFileType f = Video) (snd v))"
  have t: "videoTotal x = sum_mset (mset (map ?g (map dirView (subdirs x))))" for x
  proof -
    have "map videoCount (subdirs x) = map ?g (map dirView (subdirs x))"
      by (simp add: videoCount_view)
    then have "videoTotal x = sum_list (map ?g (map dirView (subdirs x)))"
      by (simp only: videoTotal_def)
    then show ?thesis by (simp only: sum_mset_sum_list)
  qed
  have "mset (map ?g (map dirView (subdirs d))) = mset (map ?g (map dirView (subdirs d')))"
    using assms by (simp only: sameListing_def mset_map)
  then show ?thesis by (simp only: t)
qed

lemma sorted_views_same:
  assumes "sameListing d d'"
    and "distinct (map entryName (subdirs d))"
    and "strictOn cmp (map entryName (subdirs d))"
  shows "map dirView (jsSort (\<lambda>a b. cmp (entryName a) (entryName b)) (subdirs d)) =
         map dirView (jsSort (\<lambda>a b. cmp (entryName a) (entryName b)) (subdirs d'))"
proof -
  let ?c = "\<lambda>a b. cmp (entryName a) (entryName b)"
  let ?c' = "\<lambda>(a :: string \<times> string multiset) b. cmp (fst a) (fst b)"
  have key: "\<And>a b. ?c' (dirView a) (dirView b) = ?c a b" by (simp add: dirView_def)
  have m: "mset (map dirView (subdirs d)) = mset (map dirView (subdirs d'))"
    using assms(1) by (simp add: sameListing_def)
  have names: "fst ` set (map dirView (subdirs d)) = set (map entryName (subdirs d))"
    by (force simp: dirView_def)
  have inj: "a = b" if "a \<in> set (map dirView (subdirs d))" "b \<in> set (map dirView (subdirs d))"
    "fst a = fst b" for a b
  proof -
    from that obtain e1 e2 where e: "e1 \<in> set (subdirs d)" "e2 \<in> set (subdirs d)"
      "a = dirView e1" "b = dirView e2" by auto
    with that(3) have "entryName e1 = entryName e2" by (simp add: dirView_def)
    with assms(2) e(1,2) have "e1 = e2" by (auto simp: distinct_map dest: inj_onD)
    with e show ?thesis by simp
  qed
  have tot: "\<And>x y. x \<in> set (map entryName (subdirs d)) \<Longrightarrow> y \<in> set (map entryName (subdirs d))
              \<Longrightarrow> cmp x y \<le> 0 \<or> cmp y x \<le> 0"
    using assms(3) unfolding strictOn_def consistentOn_def by blast
  have tr: "\<And>x y z. x \<in> set (map entryName (subdirs d)) \<Longrightarrow> y \<in> set (map entryName (subdirs d))
              \<Longrightarrow> z \<in> set (map entryName (subdirs d))
              \<Longrightarrow> cmp x y \<le> 0 \<Longrightarrow> cmp y z \<le> 0 \<Longrightarrow> cmp x z \<le> 0"
    using assms(3) unfolding strictOn_def consistentOn_def by blast
  have anti: "\<And>x y. x \<in> set (map entryName (subdirs d)) \<Longrightarrow> y \<in> set (map entryName (subdirs d))
              \<Longrightarrow> cmp x y \<le> 0 \<Longrightarrow> cmp y x \<le> 0 \<Longrightarrow> x = y"
    using assms(3) unfolding strictOn_def by blast
  have nm: "fst a \<in> set (map entryName (subdirs d))" if "a \<in> set (map dirView (subdirs d))" for a
    using that names by blast
  have st: "strictOn ?c' (map dirView (subdirs d))"
    unfolding strictOn_def consistentOn_def
  proof (intro conjI ballI impI)
    fix a b assume ab: "a \<in> set (map dirView (subdirs d))" "b \<in> set (map dirView (subdirs d))"
    show "cmp (fst a) (fst b) \<le> 0 \<or> cmp (fst b) (fst a) \<le> 0"
      by (rule tot [OF nm [OF ab(1)] nm [OF ab(2)]])
  next
    fix a b c assume abc: "a \<in> set (map dirView (subdirs d))" "b \<in> set (map dirView (subdirs d))"
      "c \<in> set (map dirView (subdirs d))"
      and le: "cmp (fst a) (fst b) \<le> 0 \<and> cmp (fst b) (fst c) \<le> 0"
    show "cmp (fst a) (fst c) \<le> 0"
      using tr [OF nm [OF abc(1)] nm [OF abc(2)] nm [OF abc(3)]] le by simp
  next
    fix a b assume ab: "a \<in> set (map dirView (subdirs d))" "b \<in> set (map dirView (subdirs d))"
      and le: "cmp (fst a) (fst b) \<le> 0 \<and> cmp (fst b) (fst a) \<le> 0"
    have "fst a = fst b"
      using anti [OF nm [OF ab(1)] nm [OF ab(2)]] le by simp
    then show "a = b" by (rule inj [OF ab])
  qed
  have "map dirView (jsSort ?c (subdirs d)) = jsSort ?c' (map dirView (subdirs d))"
    by (rule jsSort_map [of ?c' dirView ?c, OF key])
  also have "\<dots> = jsSort ?c' (map dirView (subdirs d'))"
    by (rule jsSort_perm_eq [OF m st])
  also have "\<dots> = map dirView (jsSort ?c (subdirs d'))"
    by (rule jsSort_map [of ?c' dirView ?c, OF key, symmetric])
  finally show ?thesis .
qed

text \<open>
  Claim C7, as the code has it.  Two enumerations of the same listing give the same
  result of the builder, the same error or the same sections, lessons and files in the
  same order, when the comparator is strict on the subdirectory names and on the file
  names of each subdirectory, that is, when no two names of one listing compare equal.
\<close>

theorem enumeration_order_irrelevant:
  assumes "sameListing d d'"
    and "distinct (map entryName (subdirs d))"
    and "strictOn cmp (map entryName (subdirs d))"
    and "\<forall>e\<in>set (subdirs d). strictOn cmp (fileNames e)"
  shows "parseCourseStructure cmp d = parseCourseStructure cmp d'"
proof -
  let ?c = "\<lambda>a b. cmp (entryName a) (entryName b)"
  have "size (mset (map dirView (subdirs d))) = size (mset (map dirView (subdirs d')))"
    using assms(1) by (simp add: sameListing_def)
  then have e: "subdirs d = [] \<longleftrightarrow> subdirs d' = []" by (simp flip: length_0_conv)
  have v: "videoTotal d = videoTotal d'" by (rule videoTotal_same [OF assms(1)])
  have "map (sectionOf cmp) (jsSort ?c (subdirs d)) = map (sectionOf cmp) (jsSort ?c (subdirs d'))"
  proof (rule map_sectionOf_same)
    show "map dirView (jsSort ?c (subdirs d)) = map dirView (jsSort ?c (subdirs d'))"
      by (rule sorted_views_same [OF assms(1-3)])
    show "\<forall>e\<in>set (jsSort ?c (subdirs d)). strictOn cmp (fileNames e)"
      using assms(4) by (simp add: set_jsSort)
  qed
  then have r: "retainedSections cmp d = retainedSections cmp d'"
    by (simp add: retainedSections_def)
  show ?thesis by (simp add: parseCourseStructure_unfold e v r)
qed

lemma strictOn_pair:
  assumes "consistentOn cmp [a, b]" and "cmp a b < 0" and "cmp b a > 0"
  shows "strictOn cmp [a, b]"
  using assms by (auto simp: strictOn_def)

lemma strictOn_single: "consistentOn cmp [a] \<Longrightarrow> strictOn cmp [a]"
  by (simp add: strictOn_def)

theorem enumeration_order_irrelevant_witness:
  "parseCourseStructure naturalSort
     (DirectoryEntry ''Course''
       [DirectoryEntry ''1. A'' [FileEntry ''1. a.mp4'', FileEntry ''1. a.vtt''],
        DirectoryEntry ''2. B'' [FileEntry ''2. b.mp4'']]) =
   parseCourseStructure naturalSort
     (DirectoryEntry ''Course''
       [DirectoryEntry ''2. B'' [FileEntry ''2. b.mp4''],
        DirectoryEntry ''1. A'' [FileEntry ''1. a.vtt'', FileEntry ''1. a.mp4'']])"
proof -
  let ?d = "DirectoryEntry ''Course''
       [DirectoryEntry ''1. A'' [FileEntry ''1. a.mp4'', FileEntry ''1. a.vtt''],
        DirectoryEntry ''2. B'' [FileEntry ''2. b.mp4'']]"
  let ?d' = "DirectoryEntry ''Course''
       [DirectoryEntry ''2. B'' [FileEntry ''2. b.mp4''],
        DirectoryEntry ''1. A'' [FileEntry ''1. a.vtt'', FileEntry ''1. a.mp4'']]"
  have s: "subdirs ?d = [DirectoryEntry ''1. A'' [FileEntry ''1. a.mp4'', FileEntry ''1. a.vtt''],
        DirectoryEntry ''2. B'' [FileEntry ''2. b.mp4'']]"
    by (simp add: subdirs_def)
  have h1: "sameListing ?d ?d'"
    by (simp add: sameListing_def subdirs_def dirView_def fileNames_def add_mset_commute)
  have h2: "distinct (map entryName (subdirs ?d))" by (simp add: s)
  have c1: "\<forall>n\<in>set [''1. A'', ''2. B'']. collated n" by code_simp
  have c2: "\<forall>n\<in>set [''1. a.mp4'', ''1. a.vtt'']. collated n" by code_simp
  have c3: "\<forall>n\<in>set [''2. b.mp4'']. collated n" by code_simp
  have n1: "naturalSort ''1. A'' ''2. B'' < 0" by code_simp
  have n2: "naturalSort ''2. B'' ''1. A'' > 0" by code_simp
  have n3: "naturalSort ''1. a.mp4'' ''1. a.vtt'' < 0" by code_simp
  have n4: "naturalSort ''1. a.vtt'' ''1. a.mp4'' > 0" by code_simp
  have h3: "strictOn naturalSort (map entryName (subdirs ?d))"
    using strictOn_pair [of naturalSort "''1. A''" "''2. B''", OF naturalSort_consistentOn [OF c1] n1 n2]
    by (simp add: s)
  have h4: "\<forall>e\<in>set (subdirs ?d). strictOn naturalSort (fileNames e)"
    using strictOn_pair [of naturalSort "''1. a.mp4''" "''1. a.vtt''", OF naturalSort_consistentOn [OF c2] n3 n4]
      strictOn_single [of naturalSort "''2. b.mp4''", OF naturalSort_consistentOn [OF c3]]
    by (simp add: s fileNames_def)
  show ?thesis by (rule enumeration_order_irrelevant [OF h1 h2 h3 h4])
qed

text \<open>
  Claim C7 as stated fails: \<open>1. Intro.mp4\<close> and \<open>1. intro.mp4\<close> compare equal, the sort
  leaves them in the order of the enumeration, and the lesson built from them takes its
  name and the order of its files from the first one.
\<close>

theorem enumeration_order_counterexample:
  "parseCourseStructure naturalSort
     (DirectoryEntry ''Course''
       [DirectoryEntry ''1. Start'' [FileEntry ''1. Intro.mp4'', FileEntry ''1. intro.mp4'']]) \<noteq>
   parseCourseStructure naturalSort
     (DirectoryEntry ''Course''
       [DirectoryEntry ''1. Start'' [FileEntry ''1. intro.mp4'', FileEntry ''1. Intro.mp4'']])"
  by code_simp

section \<open>Properties of the progress percentage\<close>

lemma pow2_pos: "0 < pow2 e"
  by (simp add: pow2_def)

lemma pow2_powi: "pow2 e = 2 powi e"
  by (simp add: pow2_def power_int_def power_inverse inverse_eq_divide power_one_over)

lemma pow2_add: "pow2 (a + b) = pow2 a * pow2 b"
  by (simp add: pow2_powi power_int_add)

lemma pow2_nat: "pow2 (int n) = 2 ^ n"
  by (simp add: pow2_def)

lemma pow2_mono: "a \<le> b \<Longrightarrow> pow2 a \<le> pow2 b"
  by (simp add: pow2_powi power_int_increasing)

lemma pow2_le_imp_le: "pow2 a \<le> pow2 b \<Longrightarrow> a \<le> b"
proof (rule ccontr)
  assume le: "pow2 a \<le> pow2 b" and "\<not> a \<le> b"
  then have "b < a" by simp
  then have "(2::rat) powi b < 2 powi a" by (intro power_int_strict_increasing) simp_all
  with le show False by (simp add: pow2_powi)
qed

lemma binaryExponent_bounds:
  assumes "0 < q"
  shows "pow2 (binaryExponent q) \<le> q" and "q < pow2 (binaryExponent q + 1)"
proof -
  have "pow2 (binaryExponent q) \<le> q \<and> q < pow2 (binaryExponent q + 1)"
  proof (cases "1 \<le> q")
    case True
    define n where "n = \<lfloor>q\<rfloor>"
    have n1: "1 \<le> n" using True by (simp add: n_def le_floor_iff)
    have b: "2 ^ nat (bitlen n - 1) \<le> n" "n < 2 ^ nat (bitlen n)"
      using bitlen_bounds [of n] n1 by simp_all
    have bl: "1 \<le> bitlen n" using n1 bitlen_eq_zero_iff [of n] bitlen_nonneg [of n] by linarith
    have e: "binaryExponent q = bitlen n - 1" using True by (simp add: binaryExponent_def n_def)
    have "pow2 (bitlen n - 1) = of_int (2 ^ nat (bitlen n - 1))"
      using bl by (simp add: pow2_def)
    also have "\<dots> \<le> of_int n" using b(1) by (simp only: of_int_le_iff)
    also have "\<dots> \<le> q" by (simp add: n_def)
    finally have 1: "pow2 (binaryExponent q) \<le> q" by (simp add: e)
    have "q < of_int n + 1" unfolding n_def by linarith
    also have "\<dots> = of_int (n + 1)" by simp
    also have "\<dots> \<le> of_int (2 ^ nat (bitlen n))" using b(2) by (simp only: of_int_le_iff)
    also have "\<dots> = pow2 (bitlen n)" using bl by (simp add: pow2_def)
    finally have 2: "q < pow2 (binaryExponent q + 1)" by (simp add: e)
    from 1 2 show ?thesis ..
  next
    case False
    then have q1: "q < 1" by simp
    define n where "n = \<lceil>1 / q\<rceil>"
    have "1 < 1 / q" using assms q1 by (simp add: field_simps)
    then have n2: "2 \<le> n" unfolding n_def by (simp add: le_ceiling_iff)
    define j where "j = bitlen (n - 1)"
    have b: "2 ^ nat (j - 1) \<le> n - 1" "n - 1 < 2 ^ nat j"
      using bitlen_bounds [of "n - 1"] n2 by (simp_all add: j_def)
    have j1: "1 \<le> j"
      using n2 bitlen_eq_zero_iff [of "n - 1"] bitlen_nonneg [of "n - 1"] unfolding j_def by linarith
    have e: "binaryExponent q = - j" using False by (simp add: binaryExponent_def n_def j_def)
    have "1 / q \<le> of_int n" by (simp add: n_def)
    also have "\<dots> \<le> of_int (2 ^ nat j)" using b(2) by (simp only: of_int_le_iff)
    finally have "1 / q \<le> 2 ^ nat j" by simp
    then have "1 / 2 ^ nat j \<le> q" using assms by (simp add: field_simps)
    moreover have "pow2 (- j) = 1 / 2 ^ nat j" using j1 by (simp add: pow2_def)
    ultimately have 1: "pow2 (binaryExponent q) \<le> q" by (simp add: e)
    have "of_int (2 ^ nat (j - 1)) \<le> (of_int (n - 1) :: rat)" using b(1) by (simp only: of_int_le_iff)
    also have "\<dots> < 1 / q" unfolding n_def by simp linarith
    finally have "2 ^ nat (j - 1) < 1 / q" by simp
    then have "q < 1 / 2 ^ nat (j - 1)" using assms by (simp add: field_simps)
    moreover have "pow2 (- j + 1) = 1 / 2 ^ nat (j - 1)"
      using j1 by (cases "j = 1") (simp_all add: pow2_def)
    ultimately have 2: "q < pow2 (binaryExponent q + 1)" by (simp add: e)
    from 1 2 show ?thesis ..
  qed
  then show "pow2 (binaryExponent q) \<le> q" and "q < pow2 (binaryExponent q + 1)" by simp_all
qed

lemma roundHalfEven_error: "\<bar>of_int (roundHalfEven m) - m\<bar> \<le> 1 / 2"
proof -
  have "of_int \<lfloor>m\<rfloor> \<le> m" "m < of_int \<lfloor>m\<rfloor> + 1" by linarith+
  then show ?thesis by (auto simp: roundHalfEven_def Let_def)
qed

lemma roundHalfEven_le: "m \<le> of_int N \<Longrightarrow> roundHalfEven m \<le> N"
proof -
  assume a: "m \<le> of_int N"
  have f: "\<lfloor>m\<rfloor> \<le> N" using a by (simp add: floor_le_iff)
  show ?thesis
  proof (cases "\<lfloor>m\<rfloor> = N")
    case True
    then have "m - of_int \<lfloor>m\<rfloor> \<le> 0" using a by simp
    then show ?thesis using True by (simp add: roundHalfEven_def Let_def)
  next
    case False
    then have "\<lfloor>m\<rfloor> + 1 \<le> N" using f by simp
    then show ?thesis by (auto simp: roundHalfEven_def Let_def)
  qed
qed

lemma roundHalfEven_ge: "of_int N \<le> m \<Longrightarrow> N \<le> roundHalfEven m"
proof -
  assume "of_int N \<le> m"
  then have "N \<le> \<lfloor>m\<rfloor>" by (simp add: le_floor_iff)
  then show ?thesis by (auto simp: roundHalfEven_def Let_def)
qed

lemma toDouble_pos_eq:
  "0 < q \<Longrightarrow> toDouble q =
     of_int (roundHalfEven (q / pow2 (binaryExponent q - 52))) * pow2 (binaryExponent q - 52)"
  by (simp add: toDouble_def Let_def)

lemma toDouble_nonneg: "0 \<le> q \<Longrightarrow> 0 \<le> toDouble q"
proof (cases "q = 0")
  case True
  then show ?thesis by (simp add: toDouble_def)
next
  case False
  assume "0 \<le> q"
  with False have q: "0 < q" by simp
  have "of_int 0 \<le> q / pow2 (binaryExponent q - 52)"
    using q pow2_pos [of "binaryExponent q - 52"] by simp
  then have "0 \<le> roundHalfEven (q / pow2 (binaryExponent q - 52))" by (rule roundHalfEven_ge)
  then show ?thesis using pow2_pos [of "binaryExponent q - 52"] by (simp add: toDouble_pos_eq [OF q])
qed

lemma toDouble_le:
  assumes "0 < q" and "q \<le> of_int N * pow2 (binaryExponent q - 52)"
  shows "toDouble q \<le> of_int N * pow2 (binaryExponent q - 52)"
proof -
  let ?u = "pow2 (binaryExponent q - 52)"
  have u: "0 < ?u" by (rule pow2_pos)
  have "q / ?u \<le> of_int N" using assms(2) u by (simp add: field_simps)
  then have "roundHalfEven (q / ?u) \<le> N" by (rule roundHalfEven_le)
  then have "(of_int (roundHalfEven (q / ?u)) :: rat) \<le> of_int N" by (simp only: of_int_le_iff)
  then show ?thesis using u by (simp add: toDouble_pos_eq [OF assms(1)])
qed

lemma toDouble_error:
  assumes "0 < q"
  shows "\<bar>toDouble q - q\<bar> \<le> q / 2 ^ 53"
proof -
  let ?u = "pow2 (binaryExponent q - 52)"
  have u: "0 < ?u" by (rule pow2_pos)
  have "\<bar>toDouble q - q\<bar> = \<bar>of_int (roundHalfEven (q / ?u)) - q / ?u\<bar> * ?u"
  proof -
    have "toDouble q - q = (of_int (roundHalfEven (q / ?u)) - q / ?u) * ?u"
      using u by (simp add: toDouble_pos_eq [OF assms] field_simps)
    then show ?thesis using u by (simp add: abs_mult)
  qed
  also have "\<dots> \<le> 1 / 2 * ?u"
    using roundHalfEven_error [of "q / ?u"] u by (intro mult_right_mono) simp_all
  also have "?u = pow2 (binaryExponent q) / 2 ^ 52"
    using pow2_add [of "binaryExponent q" "- 52"] by (simp add: pow2_def)
  also have "1 / 2 * (pow2 (binaryExponent q) / 2 ^ 52) \<le> 1 / 2 * (q / 2 ^ 52)"
    using binaryExponent_bounds(1) [OF assms] by (simp add: divide_right_mono)
  finally show ?thesis by simp
qed

lemma binaryExponent_less:
  assumes "0 < q" and "q < pow2 k"
  shows "binaryExponent q < k"
proof (rule ccontr)
  assume "\<not> binaryExponent q < k"
  then have "pow2 k \<le> pow2 (binaryExponent q)" by (intro pow2_mono) simp
  with binaryExponent_bounds(1) [OF assms(1)] assms(2) show False by simp
qed

lemma toDouble_le_grid:
  assumes "0 < q" and "q \<le> of_int M * pow2 k" and "binaryExponent q - 52 \<le> k"
  shows "toDouble q \<le> of_int M * pow2 k"
proof -
  let ?e = "binaryExponent q - 52"
  have "pow2 k = pow2 (k - ?e) * pow2 ?e" using pow2_add [of "k - ?e" ?e] by simp
  moreover have "pow2 (k - ?e) = of_int (2 ^ nat (k - ?e))"
    using assms(3) by (simp add: pow2_def)
  ultimately have g: "of_int M * pow2 k = of_int (M * 2 ^ nat (k - ?e)) * pow2 ?e" by simp
  show ?thesis
    unfolding g by (rule toDouble_le [OF assms(1)]) (use assms(2) g in simp)
qed

lemma toDouble_le_1:
  assumes "0 \<le> q" and "q \<le> 1"
  shows "toDouble q \<le> 1"
proof (cases "q = 0")
  case True
  then show ?thesis by (simp add: toDouble_def)
next
  case False
  with assms have q: "0 < q" by simp
  have "q < pow2 1" using assms(2) by (simp add: pow2_def)
  then have "binaryExponent q < 1" by (rule binaryExponent_less [OF q])
  then have "toDouble q \<le> of_int 1 * pow2 0"
    using assms(2) by (intro toDouble_le_grid [OF q]) (simp_all add: pow2_def)
  then show ?thesis by (simp add: pow2_def)
qed

lemma toDouble_le_100:
  assumes "0 \<le> q" and "q \<le> 100"
  shows "toDouble q \<le> 100"
proof (cases "q = 0")
  case True
  then show ?thesis by (simp add: toDouble_def)
next
  case False
  with assms have q: "0 < q" by simp
  have "q < pow2 7" using assms(2) by (simp add: pow2_def)
  then have "binaryExponent q < 7" by (rule binaryExponent_less [OF q])
  then have "toDouble q \<le> of_int 25 * pow2 2"
    using assms(2) by (intro toDouble_le_grid [OF q]) (simp_all add: pow2_def)
  then show ?thesis by (simp add: pow2_def)
qed

lemma toDouble_error_nonneg:
  assumes "0 \<le> q"
  shows "\<bar>toDouble q - q\<bar> \<le> q / 2 ^ 53"
proof (cases "q = 0")
  case True
  then show ?thesis by (simp add: toDouble_def)
next
  case False
  with assms have "0 < q" by simp
  then show ?thesis by (rule toDouble_error)
qed

lemma percentage_bounds:
  assumes "0 < t" and "c \<le> t"
  shows "0 \<le> percentage c t" and "percentage c t \<le> 100"
    and "\<bar>of_int (percentage c t) - 100 * of_nat c / of_nat t\<bar> \<le> (1 / 2 + 200 / 2 ^ 53 :: rat)"
proof -
  define r :: rat where "r = of_nat c / of_nat t"
  define x where "x = toDouble r"
  define y where "y = toDouble (x * 100)"
  have p: "percentage c t = \<lfloor>y + 1 / 2\<rfloor>"
    using assms(1) by (simp add: percentage_def mathRound_def y_def x_def r_def)
  have r0: "0 \<le> r" by (simp add: r_def)
  have r1: "r \<le> 1" using assms by (simp add: r_def)
  have x0: "0 \<le> x" unfolding x_def by (rule toDouble_nonneg [OF r0])
  have x1: "x \<le> 1" unfolding x_def by (rule toDouble_le_1 [OF r0 r1])
  have xr: "\<bar>x - r\<bar> \<le> r / 2 ^ 53" unfolding x_def by (rule toDouble_error_nonneg [OF r0])
  have y0: "0 \<le> y" unfolding y_def using x0 by (intro toDouble_nonneg) simp
  have y1: "y \<le> 100" unfolding y_def using x0 x1 by (intro toDouble_le_100) simp_all
  have yx: "\<bar>y - x * 100\<bar> \<le> x * 100 / 2 ^ 53"
    unfolding y_def using x0 by (intro toDouble_error_nonneg) simp
  define P :: rat where "P = of_int \<lfloor>y + 1 / 2\<rfloor>"
  have f1: "P \<le> y + 1 / 2" and f2: "y + 1 / 2 < P + 1"
    unfolding P_def by linarith+
  show "0 \<le> percentage c t" unfolding p using y0 by simp
  show "percentage c t \<le> 100"
  proof -
    have "y + 1 / 2 < of_int 101" using y1 by simp
    then have "\<lfloor>y + 1 / 2\<rfloor> < 101" by (simp only: floor_less_iff)
    then show ?thesis unfolding p by simp
  qed
  have e1: "\<bar>x - r\<bar> \<le> 1 / 2 ^ 53"
  proof -
    have "r / 2 ^ 53 \<le> 1 / 2 ^ 53" using r1 by (intro divide_right_mono) simp_all
    with xr show ?thesis by simp
  qed
  have e2: "\<bar>y - x * 100\<bar> \<le> 100 / 2 ^ 53"
  proof -
    have "x * 100 / 2 ^ 53 \<le> 100 / 2 ^ 53" using x1 by (intro divide_right_mono) simp_all
    with yx show ?thesis by simp
  qed
  have g1: "- (1 / 2 ^ 53) \<le> x - r" "x - r \<le> 1 / 2 ^ 53"
    using e1 unfolding abs_le_iff by linarith+
  have g2: "- (100 / 2 ^ 53) \<le> y - x * 100" "y - x * 100 \<le> 100 / 2 ^ 53"
    using e2 unfolding abs_le_iff by linarith+
  have "P - 100 * r \<le> 1 / 2 + 200 / 2 ^ 53" "- (P - 100 * r) \<le> 1 / 2 + 200 / 2 ^ 53"
    using f1 f2 g1 g2 by linarith+
  then have "\<bar>P - 100 * r\<bar> \<le> 1 / 2 + 200 / 2 ^ 53" unfolding abs_le_iff by simp
  then show "\<bar>of_int (percentage c t) - 100 * of_nat c / of_nat t\<bar> \<le> (1 / 2 + 200 / 2 ^ 53 :: rat)"
    unfolding p P_def r_def by simp
qed

lemma percentage_no_lessons: "percentage c 0 = 0"
  by (simp add: percentage_def)

text \<open>
  Claim C4, as the code has it.  The percentage is an integer; it is 0 for a course
  without lessons; when the number of completed lessons is at most the number of lessons
  it lies between 0 and 100 and differs from the exact \<open>100 * completed / lessons\<close> by at
  most one half and the rounding error of the two binary64 operations.  One of three
  gives 33 and two of three give 67.
\<close>

theorem percentage_properties:
  "(t = 0 \<longrightarrow> percentage c t = 0)
   \<and> (0 < t \<and> c \<le> t \<longrightarrow>
        0 \<le> percentage c t \<and> percentage c t \<le> 100
        \<and> \<bar>of_int (percentage c t) - 100 * of_nat c / of_nat t\<bar> \<le> (1 / 2 + 200 / 2 ^ 53 :: rat))
   \<and> percentage 1 3 = 33 \<and> percentage 2 3 = 67"
proof -
  have a: "percentage 1 3 = 33" by code_simp
  have b: "percentage 2 3 = 67" by code_simp
  show ?thesis
    using percentage_bounds [of t c] percentage_no_lessons [of c] a b by blast
qed

theorem percentage_properties_witness:
  "(0::nat) < 40 \<and> (23::nat) \<le> 40 \<and> 0 \<le> percentage 23 40 \<and> percentage 23 40 \<le> 100
   \<and> \<bar>of_int (percentage 23 40) - 100 * of_nat 23 / of_nat 40\<bar> \<le> (1 / 2 + 200 / 2 ^ 53 :: rat)
   \<and> percentage 7 0 = 0"
  using percentage_properties [of 40 23] percentage_properties [of 0 7] by simp

text \<open>
  Claim C4 as stated fails twice.  Three completed identifiers read from storage for a
  course that now has two lessons give 150.  With 23 of 40 lessons completed the exact
  value is 57.5, which rounds to 58, while \<^verbatim>\<open>(23 / 40) * 100\<close> is the binary64 value just
  below 57.5 and the code gives 57.
\<close>

theorem percentage_counterexample:
  "percentage 3 2 = 150 \<and> percentage 23 40 = 57 \<and> percentComplete_spec 23 40 = 58"
proof -
  have a: "percentage 3 2 = 150" by code_simp
  have b: "percentage 23 40 = 57" by code_simp
  have c: "percentComplete_spec 23 40 = 58" by code_simp
  from a b c show ?thesis by simp
qed

lemma updateProgressBar_bounds:
  assumes "0 < totalLessons cs" and "card completed \<le> totalLessons cs"
  shows "0 \<le> updateProgressBar cs completed \<and> updateProgressBar cs completed \<le> 100"
  using percentage_bounds(1,2) [OF assms] by (simp add: updateProgressBar_def)

end
